theory Spec2Isabelle
  imports Main "HOL-Library.Word"
begin

section \<open>The reflection-driven codec of \<^verbatim>\<open>main.go\<close> (package gensenc)\<close>

text \<open>
  The package has two recursive procedures, \<^verbatim>\<open>EncodeValue\<close> and \<^verbatim>\<open>DecodeValue\<close>, that
  switch on the kind of a \<^verbatim>\<open>reflect.Value\<close>, and two entry points \<^verbatim>\<open>Encode\<close> and
  \<^verbatim>\<open>Decode\<close>. A \<^verbatim>\<open>reflect.Value\<close> is modelled by three things the code reads from it:
  its type (\<open>gtype\<close>), its flags (\<open>flag\<close>: addressable, read-only) and its data
  (\<open>gval\<close>). The byte stream is the list of bytes that remain to be read. A nil
  interface handed to \<^verbatim>\<open>Encode\<close> or \<^verbatim>\<open>Decode\<close> (an invalid \<^verbatim>\<open>reflect.Value\<close>) is not
  modelled.
\<close>

subsection \<open>Types, values and flags\<close>

type_synonym byte = "8 word"

datatype ikind = KInt | KInt8 | KInt16 | KInt32 | KInt64
datatype ukind = KUint | KUint8 | KUint16 | KUint32 | KUint64

text \<open>
  The kinds that reach the \<^verbatim>\<open>default\<close> branch of both switches and hold a fixed-width
  scalar. A float is represented by its IEEE bit pattern, which is what
  \<^verbatim>\<open>encoding/binary\<close> writes. The kinds uintptr, chan, func, interface and
  unsafe.Pointer are not modelled.
\<close>

datatype okind = KBool | KFloat32 | KFloat64 | KComplex64 | KComplex128

datatype oval =
    OBool bool
  | OFloat32 "32 word"
  | OFloat64 "64 word"
  | OComplex64 "32 word" "32 word"
  | OComplex128 "64 word" "64 word"

text \<open>
  A struct type lists its fields in declaration order, each with \<open>True\<close> when exported.
  A type is a finite tree: a recursive type declaration (a struct that holds a slice of
  itself) is not modelled.
\<close>

datatype gtype =
    TString
  | TStruct "(bool \<times> gtype) list"
  | TSlice gtype
  | TArray nat gtype
  | TMap gtype gtype
  | TInt ikind
  | TUint ukind
  | TPointer gtype
  | TOther okind

text \<open>
  Data. A string is its bytes (\<open>char\<close> is a byte). A nil slice and an empty slice are
  both \<open>VSlice []\<close>: the code never tests a slice for nil. A map is \<open>None\<close> when nil,
  else the list of its pairs in the order in which \<^verbatim>\<open>MapKeys\<close> returns the keys at the
  call under study; Go leaves that order unspecified, so every permutation of the list
  stands for the same map. A pointer is \<open>None\<close> when nil, else its pointee; pointers
  are modelled as owning their pointee, so aliasing between two pointers is outside the
  model.
\<close>

datatype gval =
    VString string
  | VStruct "gval list"
  | VSlice "gval list"
  | VArray "gval list"
  | VMap "(gval \<times> gval) list option"
  | VInt int
  | VUint nat
  | VPointer "gval option"
  | VOther oval

text \<open>
  \<^verbatim>\<open>flagAddr\<close> and \<^verbatim>\<open>flagRO\<close> of \<^verbatim>\<open>reflect.Value\<close>, and how \<^verbatim>\<open>Field\<close>, \<^verbatim>\<open>Index\<close>,
  \<^verbatim>\<open>Elem\<close> and \<^verbatim>\<open>reflect.ValueOf\<close> set them.
\<close>

record flag =
  addr :: bool
  ro :: bool

definition CanSet :: "flag \<Rightarrow> bool" where
  "CanSet fl = (addr fl \<and> \<not> ro fl)"

definition CanInterface :: "flag \<Rightarrow> bool" where
  "CanInterface fl = (\<not> ro fl)"

definition ValueOf :: flag where
  "ValueOf = \<lparr>addr = False, ro = False\<rparr>"

definition Field :: "flag \<Rightarrow> bool \<Rightarrow> flag" where
  "Field fl exported = \<lparr>addr = addr fl, ro = (ro fl \<or> \<not> exported)\<rparr>"

definition Index_slice :: "flag \<Rightarrow> flag" where
  "Index_slice fl = \<lparr>addr = True, ro = ro fl\<rparr>"

definition Index_array :: "flag \<Rightarrow> flag" where
  "Index_array fl = \<lparr>addr = addr fl, ro = ro fl\<rparr>"

definition Elem :: "flag \<Rightarrow> flag" where
  "Elem fl = \<lparr>addr = True, ro = ro fl\<rparr>"

subsection \<open>Errors and results\<close>

text \<open>
  \<open>ErrCantSet\<close> is the package's own error; \<open>EOF\<close> and \<open>ErrUnexpectedEOF\<close> come from
  \<^verbatim>\<open>io.ReadFull\<close>; \<open>ErrInvalidType\<close> is \<^verbatim>\<open>binary.Read\<close>'s "invalid type" and
  \<open>ErrNotFixedSize\<close> is \<^verbatim>\<open>binary.Write\<close>'s "some values are not fixed-sized". A run-time
  panic is the result \<open>Panic\<close>.
\<close>

datatype error = ErrCantSet | EOF | ErrUnexpectedEOF | ErrInvalidType | ErrNotFixedSize

datatype 'a result = Ok 'a | Err error | Panic

subsection \<open>Little-endian integers and conversions\<close>

fun put_le :: "nat \<Rightarrow> nat \<Rightarrow> byte list" where
  "put_le 0 u = []"
| "put_le (Suc n) u = word_of_nat (u mod 256) # put_le n (u div 256)"

fun get_le :: "byte list \<Rightarrow> nat" where
  "get_le [] = 0"
| "get_le (b # bs) = unat b + 256 * get_le bs"

definition PutUint64 :: "nat \<Rightarrow> byte list" where
  "PutUint64 u = put_le 8 u"

definition Uint64 :: "byte list \<Rightarrow> nat" where
  "Uint64 l = get_le (take 8 l)"

text \<open>The conversions \<^verbatim>\<open>uint64(x)\<close> and \<^verbatim>\<open>int64(u)\<close>, and the narrowing of \<^verbatim>\<open>SetInt\<close> and \<^verbatim>\<open>SetUint\<close>.\<close>

definition uint64 :: "int \<Rightarrow> nat" where
  "uint64 x = nat (x mod 2 ^ 64)"

definition int64 :: "nat \<Rightarrow> int" where
  "int64 u = signed_take_bit 63 (int u)"

fun ibits :: "ikind \<Rightarrow> nat" where
  "ibits KInt = 64"
| "ibits KInt8 = 8"
| "ibits KInt16 = 16"
| "ibits KInt32 = 32"
| "ibits KInt64 = 64"

fun ubits :: "ukind \<Rightarrow> nat" where
  "ubits KUint = 64"
| "ubits KUint8 = 8"
| "ubits KUint16 = 16"
| "ubits KUint32 = 32"
| "ubits KUint64 = 64"

definition SetInt :: "ikind \<Rightarrow> int \<Rightarrow> gval" where
  "SetInt k x = VInt (signed_take_bit (ibits k - 1) x)"

definition SetUint :: "ukind \<Rightarrow> nat \<Rightarrow> gval" where
  "SetUint k u = VUint (u mod 2 ^ ubits k)"

definition bytes_of :: "string \<Rightarrow> byte list" where
  "bytes_of val = map (\<lambda>c. word_of_nat (of_char c)) val"

definition string_of :: "byte list \<Rightarrow> string" where
  "string_of b = map (\<lambda>w. char_of (unat w)) b"

subsection \<open>\<^verbatim>\<open>binary.Write\<close> as the encoder's default branch calls it\<close>

text \<open>
  \<^verbatim>\<open>binary.Write(buf, binary.LittleEndian, v.Interface())\<close> is library code. Its model
  follows \<^verbatim>\<open>encoding/binary\<close>: \<open>sizeof\<close> is the library's \<^verbatim>\<open>sizeof\<close> (\<open>None\<close> for its
  \<open>-1\<close>), \<open>dataSize\<close> its \<^verbatim>\<open>dataSize\<close>, \<open>native\<close> its \<^verbatim>\<open>encoder.value\<close> (every
  scalar at its own width), and \<open>fast_path\<close> says whether \<^verbatim>\<open>intDataSize\<close> knows the
  pointee type, in which case a nil pointer is dereferenced and panics. Struct types
  carry no field names in the model, so the blank fields that \<^verbatim>\<open>encoder.value\<close> writes
  as zeros are not told apart from other fields.
\<close>

fun osize :: "okind \<Rightarrow> nat" where
  "osize KBool = 1"
| "osize KFloat32 = 4"
| "osize KFloat64 = 8"
| "osize KComplex64 = 8"
| "osize KComplex128 = 16"

fun native_other :: "oval \<Rightarrow> byte list" where
  "native_other (OBool b) = [if b then 1 else 0]"
| "native_other (OFloat32 w) = put_le 4 (unat w)"
| "native_other (OFloat64 w) = put_le 8 (unat w)"
| "native_other (OComplex64 re im) = put_le 4 (unat re) @ put_le 4 (unat im)"
| "native_other (OComplex128 re im) = put_le 8 (unat re) @ put_le 8 (unat im)"

fun sizeof :: "gtype \<Rightarrow> nat option"
  and sizeof_fields :: "(bool \<times> gtype) list \<Rightarrow> nat option" where
  "sizeof (TArray n t) = (case sizeof t of Some s \<Rightarrow> Some (s * n) | None \<Rightarrow> None)"
| "sizeof (TStruct fs) = sizeof_fields fs"
| "sizeof (TOther k) = Some (osize k)"
| "sizeof (TInt k) = (if k = KInt then None else Some (ibits k div 8))"
| "sizeof (TUint k) = (if k = KUint then None else Some (ubits k div 8))"
| "sizeof TString = None"
| "sizeof (TSlice t) = None"
| "sizeof (TMap kt vt) = None"
| "sizeof (TPointer t) = None"
| "sizeof_fields [] = Some 0"
| "sizeof_fields (f # fs) =
     (case sizeof (snd f) of
        None \<Rightarrow> None
      | Some s \<Rightarrow> (case sizeof_fields fs of None \<Rightarrow> None | Some w \<Rightarrow> Some (s + w)))"

fun dataSize :: "gtype \<Rightarrow> gval \<Rightarrow> nat option" where
  "dataSize (TSlice t) (VSlice xs) =
     (case sizeof t of Some s \<Rightarrow> Some (s * length xs) | None \<Rightarrow> None)"
| "dataSize t v = sizeof t"

fun native :: "gtype \<Rightarrow> gval \<Rightarrow> byte list"
  and native_fields :: "(bool \<times> gtype) list \<Rightarrow> gval list \<Rightarrow> byte list"
  and native_elems :: "gtype \<Rightarrow> gval list \<Rightarrow> byte list" where
  "native (TArray n t) v = (case v of VArray xs \<Rightarrow> native_elems t xs | _ \<Rightarrow> [])"
| "native (TStruct fs) v = (case v of VStruct vs \<Rightarrow> native_fields fs vs | _ \<Rightarrow> [])"
| "native (TSlice t) v = (case v of VSlice xs \<Rightarrow> native_elems t xs | _ \<Rightarrow> [])"
| "native (TOther k) v = (case v of VOther x \<Rightarrow> native_other x | _ \<Rightarrow> [])"
| "native (TInt k) v =
     (case v of VInt x \<Rightarrow> put_le (ibits k div 8) (nat (x mod 2 ^ ibits k)) | _ \<Rightarrow> [])"
| "native (TUint k) v = (case v of VUint u \<Rightarrow> put_le (ubits k div 8) u | _ \<Rightarrow> [])"
| "native TString v = []"
| "native (TMap kt vt) v = []"
| "native (TPointer t) v = []"
| "native_fields [] vs = []"
| "native_fields (f # fs) [] = []"
| "native_fields (f # fs) (v # vs) = native (snd f) v @ native_fields fs vs"
| "native_elems t [] = []"
| "native_elems t (x # xs) = native t x @ native_elems t xs"

fun fast_path :: "gtype \<Rightarrow> bool" where
  "fast_path (TOther k) = (k = KBool \<or> k = KFloat32 \<or> k = KFloat64)"
| "fast_path (TInt k) = (k \<noteq> KInt)"
| "fast_path (TUint k) = (k \<noteq> KUint)"
| "fast_path t = False"

fun binary_Write :: "gtype \<Rightarrow> gval \<Rightarrow> byte list result" where
  "binary_Write (TOther k) v = Ok (native (TOther k) v)"
| "binary_Write (TPointer t) (VPointer None) =
     (if fast_path t then Panic else Err ErrNotFixedSize)"
| "binary_Write (TPointer t) (VPointer (Some x)) =
     (case dataSize t x of None \<Rightarrow> Err ErrNotFixedSize | Some n \<Rightarrow> Ok (native t x))"
| "binary_Write t v = Panic"

subsection \<open>\<^verbatim>\<open>EncodeValue\<close> and \<^verbatim>\<open>Encode\<close>\<close>

text \<open>
  \<open>prepend l res\<close> is \<^verbatim>\<open>buf.Write(l)\<close> followed by the rest of the branch: the bytes
  written so far are kept when the rest succeeds and dropped when it returns an error.
  \<open>MapElem\<close> gives the flags of the values \<^verbatim>\<open>MapKeys\<close> and \<^verbatim>\<open>MapIndex\<close> return. A data
  argument that does not have the shape of its type cannot come from Go; the model
  answers \<open>Panic\<close> there.
\<close>

fun prepend :: "byte list \<Rightarrow> byte list result \<Rightarrow> byte list result" where
  "prepend l (Ok b) = Ok (l @ b)"
| "prepend l (Err e) = Err e"
| "prepend l Panic = Panic"

definition MapElem :: "flag \<Rightarrow> flag" where
  "MapElem fl = \<lparr>addr = False, ro = ro fl\<rparr>"

fun Len :: "(gval \<times> gval) list option \<Rightarrow> nat" where
  "Len None = 0"
| "Len (Some ps) = length ps"

fun MapKeys :: "(gval \<times> gval) list option \<Rightarrow> gval list" where
  "MapKeys None = []"
| "MapKeys (Some ps) = map fst ps"

text \<open>
  \<^verbatim>\<open>v.MapIndex(key)\<close> looks the key up with Go's \<^verbatim>\<open>==\<close>, under which a floating-point
  NaN differs from every value, itself included: a key that holds a NaN in a float or
  complex part, at any depth and in an exported field or not, is never found, not even
  when it was just returned by \<^verbatim>\<open>MapKeys\<close>. \<open>nan32\<close> and \<open>nan64\<close> read the IEEE bit
  pattern (all exponent bits set, mantissa not 0). \<open>self_equal key\<close> says that
  \<^verbatim>\<open>key == key\<close> holds: strings, integers and booleans are equal to themselves, a pointer
  is compared by its address and not by its pointee, a struct and an array are compared
  part by part. (Slices and maps are not comparable in Go and cannot occur in a key.)
  \<open>MapIndex m key\<close> is \<open>None\<close> for the zero \<^verbatim>\<open>Value\<close> that \<^verbatim>\<open>MapIndex\<close> returns when it
  finds nothing; \<^verbatim>\<open>EncodeValue\<close> then panics in \<^verbatim>\<open>v.Type()\<close>. The code calls
  \<^verbatim>\<open>MapIndex\<close> only with a key of the map itself, which is found exactly when it is
  equal to itself; the pairs of the list are told apart by the data of their keys.
\<close>

definition nan32 :: "32 word \<Rightarrow> bool" where
  "nan32 w = (unat w div 2 ^ 23 mod 2 ^ 8 = 255 \<and> unat w mod 2 ^ 23 \<noteq> 0)"

definition nan64 :: "64 word \<Rightarrow> bool" where
  "nan64 w = (unat w div 2 ^ 52 mod 2 ^ 11 = 2047 \<and> unat w mod 2 ^ 52 \<noteq> 0)"

fun is_NaN :: "oval \<Rightarrow> bool" where
  "is_NaN (OBool b) = False"
| "is_NaN (OFloat32 w) = nan32 w"
| "is_NaN (OFloat64 w) = nan64 w"
| "is_NaN (OComplex64 re im) = (nan32 re \<or> nan32 im)"
| "is_NaN (OComplex128 re im) = (nan64 re \<or> nan64 im)"

fun self_equal :: "gval \<Rightarrow> bool" where
  "self_equal (VStruct vs) = list_all self_equal vs"
| "self_equal (VArray xs) = list_all self_equal xs"
| "self_equal (VOther x) = (\<not> is_NaN x)"
| "self_equal (VString val) = True"
| "self_equal (VInt x) = True"
| "self_equal (VUint u) = True"
| "self_equal (VPointer p) = True"
| "self_equal (VSlice xs) = True"
| "self_equal (VMap m) = True"

fun MapIndex :: "(gval \<times> gval) list option \<Rightarrow> gval \<Rightarrow> gval option" where
  "MapIndex None key = None"
| "MapIndex (Some ps) key = (if self_equal key then map_of ps key else None)"

function (sequential)
  EncodeValue :: "flag \<Rightarrow> gtype \<Rightarrow> gval \<Rightarrow> byte list result"
  and EncodeFields :: "flag \<Rightarrow> (bool \<times> gtype) list \<Rightarrow> gval list \<Rightarrow> byte list result"
  and EncodeElems :: "flag \<Rightarrow> gtype \<Rightarrow> gval list \<Rightarrow> byte list result"
  and EncodePairs ::
    "flag \<Rightarrow> gtype \<Rightarrow> gtype \<Rightarrow> (gval \<times> gval) list option \<Rightarrow> gval list \<Rightarrow> byte list result"
  where
  "EncodeValue fl TString v =
     (case v of
        VString val \<Rightarrow> Ok (PutUint64 (uint64 (int (length (bytes_of val)))) @ bytes_of val)
      | _ \<Rightarrow> Panic)"
| "EncodeValue fl (TStruct fs) v =
     (case v of VStruct vs \<Rightarrow> EncodeFields fl fs vs | _ \<Rightarrow> Panic)"
| "EncodeValue fl (TSlice t) v =
     (case v of
        VSlice xs \<Rightarrow>
          prepend (PutUint64 (uint64 (int (length xs)))) (EncodeElems (Index_slice fl) t xs)
      | _ \<Rightarrow> Panic)"
| "EncodeValue fl (TArray n t) v =
     (case v of VArray xs \<Rightarrow> EncodeElems (Index_array fl) t xs | _ \<Rightarrow> Panic)"
| "EncodeValue fl (TMap kt vt) v =
     (case v of
        VMap m \<Rightarrow>
          prepend (PutUint64 (uint64 (int (Len m)))) (EncodePairs fl kt vt m (MapKeys m))
      | _ \<Rightarrow> Panic)"
| "EncodeValue fl (TInt k) v =
     (case v of VInt x \<Rightarrow> Ok (PutUint64 (uint64 x)) | _ \<Rightarrow> Panic)"
| "EncodeValue fl (TUint k) v =
     (case v of VUint u \<Rightarrow> Ok (PutUint64 u) | _ \<Rightarrow> Panic)"
| "EncodeValue fl (TPointer t) v =
     (if CanInterface fl then binary_Write (TPointer t) v else Ok [])"
| "EncodeValue fl (TOther k) v =
     (if CanInterface fl then binary_Write (TOther k) v else Ok [])"
| "EncodeFields fl [] vs = Ok []"
| "EncodeFields fl ((exported, t) # fs) [] = Panic"
| "EncodeFields fl ((exported, t) # fs) (v # vs) =
     (if \<not> CanInterface (Field fl exported) then EncodeFields fl fs vs
      else case EncodeValue (Field fl exported) t v of
             Ok b \<Rightarrow> prepend b (EncodeFields fl fs vs)
           | Err e \<Rightarrow> Err e
           | Panic \<Rightarrow> Panic)"
| "EncodeElems fl t [] = Ok []"
| "EncodeElems fl t (x # xs) =
     (case EncodeValue fl t x of
        Ok b \<Rightarrow> prepend b (EncodeElems fl t xs)
      | Err e \<Rightarrow> Err e
      | Panic \<Rightarrow> Panic)"
| "EncodePairs fl kt vt m [] = Ok []"
| "EncodePairs fl kt vt m (key # keys) =
     (case EncodeValue (MapElem fl) kt key of
        Ok b \<Rightarrow>
          (case MapIndex m key of
             None \<Rightarrow> Panic
           | Some x \<Rightarrow>
               (case EncodeValue (MapElem fl) vt x of
                  Ok b' \<Rightarrow> prepend (b @ b') (EncodePairs fl kt vt m keys)
                | Err e \<Rightarrow> Err e
                | Panic \<Rightarrow> Panic))
      | Err e \<Rightarrow> Err e
      | Panic \<Rightarrow> Panic)"
  by pat_completeness auto

termination
  by (relation "measures
        [case_sum
           (case_sum (\<lambda>(fl, t, v). size t)
              (\<lambda>(fl, fs, vs). size_list (size_prod (\<lambda>_. 0) size) fs))
           (case_sum (\<lambda>(fl, t, xs). size t) (\<lambda>(fl, kt, vt, m, keys). size kt + size vt)),
         case_sum (case_sum (\<lambda>_. 0) (\<lambda>_. Suc 0)) (\<lambda>_. Suc 0),
         case_sum (\<lambda>_. 0)
           (case_sum (\<lambda>(fl, t, xs). length xs) (\<lambda>(fl, kt, vt, m, keys). length keys))]")
    auto

definition Encode :: "gtype \<Rightarrow> gval \<Rightarrow> byte list result" where
  "Encode t a = EncodeValue ValueOf t a"

text \<open>
  Go does not specify the order in which \<^verbatim>\<open>v.MapKeys()\<close> returns the keys, and two calls
  may get two orders. \<open>EncodeValueOrd ord\<close> is \<^verbatim>\<open>EncodeValue\<close> once more, with that
  choice of the run-time system as the parameter \<open>ord\<close>: \<^verbatim>\<open>MapKeys\<close> returns
  \<open>ord (MapKeys m)\<close>. Nothing else differs from \<open>EncodeValue\<close>, which is the case
  where the keys come in the order of the list.
\<close>

function (sequential)
  EncodeValueOrd :: "(gval list \<Rightarrow> gval list) \<Rightarrow> flag \<Rightarrow> gtype \<Rightarrow> gval \<Rightarrow> byte list result"
  and EncodeFieldsOrd ::
    "(gval list \<Rightarrow> gval list) \<Rightarrow> flag \<Rightarrow> (bool \<times> gtype) list \<Rightarrow> gval list \<Rightarrow> byte list result"
  and EncodeElemsOrd ::
    "(gval list \<Rightarrow> gval list) \<Rightarrow> flag \<Rightarrow> gtype \<Rightarrow> gval list \<Rightarrow> byte list result"
  and EncodePairsOrd ::
    "(gval list \<Rightarrow> gval list) \<Rightarrow> flag \<Rightarrow> gtype \<Rightarrow> gtype \<Rightarrow> (gval \<times> gval) list option
      \<Rightarrow> gval list \<Rightarrow> byte list result"
  where
  "EncodeValueOrd ord fl TString v =
     (case v of
        VString val \<Rightarrow> Ok (PutUint64 (uint64 (int (length (bytes_of val)))) @ bytes_of val)
      | _ \<Rightarrow> Panic)"
| "EncodeValueOrd ord fl (TStruct fs) v =
     (case v of VStruct vs \<Rightarrow> EncodeFieldsOrd ord fl fs vs | _ \<Rightarrow> Panic)"
| "EncodeValueOrd ord fl (TSlice t) v =
     (case v of
        VSlice xs \<Rightarrow>
          prepend (PutUint64 (uint64 (int (length xs))))
            (EncodeElemsOrd ord (Index_slice fl) t xs)
      | _ \<Rightarrow> Panic)"
| "EncodeValueOrd ord fl (TArray n t) v =
     (case v of VArray xs \<Rightarrow> EncodeElemsOrd ord (Index_array fl) t xs | _ \<Rightarrow> Panic)"
| "EncodeValueOrd ord fl (TMap kt vt) v =
     (case v of
        VMap m \<Rightarrow>
          prepend (PutUint64 (uint64 (int (Len m))))
            (EncodePairsOrd ord fl kt vt m (ord (MapKeys m)))
      | _ \<Rightarrow> Panic)"
| "EncodeValueOrd ord fl (TInt k) v =
     (case v of VInt x \<Rightarrow> Ok (PutUint64 (uint64 x)) | _ \<Rightarrow> Panic)"
| "EncodeValueOrd ord fl (TUint k) v =
     (case v of VUint u \<Rightarrow> Ok (PutUint64 u) | _ \<Rightarrow> Panic)"
| "EncodeValueOrd ord fl (TPointer t) v =
     (if CanInterface fl then binary_Write (TPointer t) v else Ok [])"
| "EncodeValueOrd ord fl (TOther k) v =
     (if CanInterface fl then binary_Write (TOther k) v else Ok [])"
| "EncodeFieldsOrd ord fl [] vs = Ok []"
| "EncodeFieldsOrd ord fl ((exported, t) # fs) [] = Panic"
| "EncodeFieldsOrd ord fl ((exported, t) # fs) (v # vs) =
     (if \<not> CanInterface (Field fl exported) then EncodeFieldsOrd ord fl fs vs
      else case EncodeValueOrd ord (Field fl exported) t v of
             Ok b \<Rightarrow> prepend b (EncodeFieldsOrd ord fl fs vs)
           | Err e \<Rightarrow> Err e
           | Panic \<Rightarrow> Panic)"
| "EncodeElemsOrd ord fl t [] = Ok []"
| "EncodeElemsOrd ord fl t (x # xs) =
     (case EncodeValueOrd ord fl t x of
        Ok b \<Rightarrow> prepend b (EncodeElemsOrd ord fl t xs)
      | Err e \<Rightarrow> Err e
      | Panic \<Rightarrow> Panic)"
| "EncodePairsOrd ord fl kt vt m [] = Ok []"
| "EncodePairsOrd ord fl kt vt m (key # keys) =
     (case EncodeValueOrd ord (MapElem fl) kt key of
        Ok b \<Rightarrow>
          (case MapIndex m key of
             None \<Rightarrow> Panic
           | Some x \<Rightarrow>
               (case EncodeValueOrd ord (MapElem fl) vt x of
                  Ok b' \<Rightarrow> prepend (b @ b') (EncodePairsOrd ord fl kt vt m keys)
                | Err e \<Rightarrow> Err e
                | Panic \<Rightarrow> Panic))
      | Err e \<Rightarrow> Err e
      | Panic \<Rightarrow> Panic)"
  by pat_completeness auto

termination
  by (relation "measures
        [case_sum
           (case_sum (\<lambda>(ord, fl, t, v). size t)
              (\<lambda>(ord, fl, fs, vs). size_list (size_prod (\<lambda>_. 0) size) fs))
           (case_sum (\<lambda>(ord, fl, t, xs). size t)
              (\<lambda>(ord, fl, kt, vt, m, keys). size kt + size vt)),
         case_sum (case_sum (\<lambda>_. 0) (\<lambda>_. Suc 0)) (\<lambda>_. Suc 0),
         case_sum (\<lambda>_. 0)
           (case_sum (\<lambda>(ord, fl, t, xs). length xs)
              (\<lambda>(ord, fl, kt, vt, m, keys). length keys))]")
    auto

definition EncodeOrd :: "(gval list \<Rightarrow> gval list) \<Rightarrow> gtype \<Rightarrow> gval \<Rightarrow> byte list result" where
  "EncodeOrd ord t a = EncodeValueOrd ord ValueOf t a"

subsection \<open>The reader, \<^verbatim>\<open>io.ReadFull\<close> and \<^verbatim>\<open>binary.Read\<close>\<close>

text \<open>
  A \<^verbatim>\<open>bytes.Reader\<close> is the list of bytes not yet read. \<open>ReadFull r n\<close> is
  \<^verbatim>\<open>io.ReadFull\<close> on a buffer of \<open>n\<close> bytes: the error, the bytes read and the reader
  afterwards. A buffer of length 0 is filled without an error even at the end of the
  stream; an empty stream gives \<^verbatim>\<open>io.EOF\<close>, a stream that ends inside the buffer gives
  \<^verbatim>\<open>io.ErrUnexpectedEOF\<close> and is consumed.
\<close>

type_synonym reader = "byte list"

definition ReadFull :: "reader \<Rightarrow> nat \<Rightarrow> error option \<times> byte list \<times> reader" where
  "ReadFull r n =
     (if n = 0 then (None, [], r)
      else if r = [] then (Some EOF, [], r)
      else if length r < n then (Some ErrUnexpectedEOF, r, [])
      else (None, take n r, drop n r))"

text \<open>
  The decoder's default branch calls \<^verbatim>\<open>binary.Read(r, binary.LittleEndian, inter)\<close> with
  \<^verbatim>\<open>inter := v.Interface()\<close>, which holds a copy of the scalar and not a pointer to it.
  For such data \<^verbatim>\<open>binary.Read\<close> first reads \<^verbatim>\<open>intDataSize(data)\<close> bytes when that size is
  not 0 (bool, float32, float64), finds no pointer or slice to store them in, and returns
  its "invalid type" error.
\<close>

fun intDataSize :: "okind \<Rightarrow> nat" where
  "intDataSize KBool = 1"
| "intDataSize KFloat32 = 4"
| "intDataSize KFloat64 = 8"
| "intDataSize KComplex64 = 0"
| "intDataSize KComplex128 = 0"

definition binary_Read :: "reader \<Rightarrow> okind \<Rightarrow> error option \<times> reader" where
  "binary_Read r k =
     (if intDataSize k \<noteq> 0 then
        (case ReadFull r (intDataSize k) of
           (Some err, bs, r') \<Rightarrow> (Some err, r')
         | (None, bs, r') \<Rightarrow> (Some ErrInvalidType, r'))
      else (Some ErrInvalidType, r))"

subsection \<open>\<^verbatim>\<open>DecodeValue\<close> and \<^verbatim>\<open>Decode\<close>\<close>

text \<open>
  \<open>zero t\<close> is the zero value of type \<open>t\<close>: what \<^verbatim>\<open>reflect.New\<close> allocates and what
  the elements of a grown slice hold.
\<close>

fun ozero :: "okind \<Rightarrow> oval" where
  "ozero KBool = OBool False"
| "ozero KFloat32 = OFloat32 0"
| "ozero KFloat64 = OFloat64 0"
| "ozero KComplex64 = OComplex64 0 0"
| "ozero KComplex128 = OComplex128 0 0"

fun zero :: "gtype \<Rightarrow> gval"
  and zero_fields :: "(bool \<times> gtype) list \<Rightarrow> gval list" where
  "zero TString = VString []"
| "zero (TStruct fs) = VStruct (zero_fields fs)"
| "zero (TSlice t) = VSlice []"
| "zero (TArray n t) = VArray (replicate n (zero t))"
| "zero (TMap kt vt) = VMap None"
| "zero (TInt k) = VInt 0"
| "zero (TUint k) = VUint 0"
| "zero (TPointer t) = VPointer None"
| "zero (TOther k) = VOther (ozero k)"
| "zero_fields [] = []"
| "zero_fields (f # fs) = zero (snd f) # zero_fields fs"

text \<open>
  \<open>New\<close> gives the flags of the pointer \<^verbatim>\<open>reflect.New\<close> returns. \<open>SetMapIndex\<close> stores
  a pair in the list of pairs: it overwrites the value of a key already there and
  appends a new key. \<open>map_result\<close> rebuilds the container around a decoded part.
\<close>

definition New :: flag where
  "New = \<lparr>addr = False, ro = False\<rparr>"

fun SetMapIndex :: "(gval \<times> gval) list \<Rightarrow> gval \<Rightarrow> gval \<Rightarrow> (gval \<times> gval) list" where
  "SetMapIndex [] key elem = [(key, elem)]"
| "SetMapIndex (p # ps) key elem =
     (if fst p = key then (key, elem) # ps else p # SetMapIndex ps key elem)"

fun map_result :: "('a \<Rightarrow> 'b) \<Rightarrow> 'a result \<times> reader \<Rightarrow> 'b result \<times> reader" where
  "map_result f (Ok a, r) = (Ok (f a), r)"
| "map_result f (Err e, r) = (Err e, r)"
| "map_result f (Panic, r) = (Panic, r)"

text \<open>
  \<open>DecodeValue fl t v r\<close> decodes from \<open>r\<close> into the target of type \<open>t\<close>, flags \<open>fl\<close>
  and present data \<open>v\<close>; it returns the target's new data (or the error, or \<open>Panic\<close>)
  and the reader afterwards. The data a target holds after an error is not returned.

  Run-time panics of the calls the code makes: \<^verbatim>\<open>make([]byte, length)\<close> panics when
  \<open>length\<close> does not fit an \<^verbatim>\<open>int\<close>; \<^verbatim>\<open>v.Grow(int(length))\<close> panics when \<open>v\<close> is not
  settable or \<^verbatim>\<open>int(length)\<close> is negative; \<^verbatim>\<open>v.Set\<close> panics when \<open>v\<close> is not settable;
  \<^verbatim>\<open>v.SetMapIndex\<close> panics when \<open>v\<close> is read-only; \<^verbatim>\<open>v.Elem()\<close> of a nil pointer is the
  zero \<^verbatim>\<open>Value\<close>, on which \<^verbatim>\<open>v.Type()\<close> panics. An \<^verbatim>\<open>int\<close> has 64 bits. Memory is
  unbounded in the model: an allocation whose length fits an \<^verbatim>\<open>int\<close> succeeds. A target
  slice has no spare capacity beyond its length, so that after \<^verbatim>\<open>Clear\<close>, \<^verbatim>\<open>Grow\<close> and
  \<^verbatim>\<open>SetLen\<close> every element is a zero value.

  In the map loop \<^verbatim>\<open>key := reflect.New(v.Type().Key())\<close> is a pointer to a zero value,
  and \<^verbatim>\<open>DecodeValue(r, key)\<close> goes through the pointer branch into \<^verbatim>\<open>key.Elem()\<close>; the
  loop of the model calls \<open>DecodeValue\<close> on that element directly.
\<close>

function (sequential)
  DecodeValue :: "flag \<Rightarrow> gtype \<Rightarrow> gval \<Rightarrow> reader \<Rightarrow> gval result \<times> reader"
  and DecodeFields ::
    "flag \<Rightarrow> (bool \<times> gtype) list \<Rightarrow> gval list \<Rightarrow> reader \<Rightarrow> gval list result \<times> reader"
  and DecodeElems :: "flag \<Rightarrow> gtype \<Rightarrow> gval list \<Rightarrow> reader \<Rightarrow> gval list result \<times> reader"
  and DecodePairs ::
    "flag \<Rightarrow> gtype \<Rightarrow> gtype \<Rightarrow> nat \<Rightarrow> (gval \<times> gval) list \<Rightarrow> reader
      \<Rightarrow> (gval \<times> gval) list result \<times> reader"
  where
  "DecodeValue fl TString v r =
     (if \<not> CanSet fl then (Err ErrCantSet, r)
      else case ReadFull r 8 of
             (Some err, l, r') \<Rightarrow> (Err err, r')
           | (None, l, r') \<Rightarrow>
               if 2 ^ 63 \<le> Uint64 l then (Panic, r')
               else (case ReadFull r' (Uint64 l) of
                       (Some err, b, r'') \<Rightarrow> (Err err, r'')
                     | (None, b, r'') \<Rightarrow> (Ok (VString (string_of b)), r'')))"
| "DecodeValue fl (TStruct fs) v r =
     (case v of
        VStruct vs \<Rightarrow> map_result VStruct (DecodeFields fl fs vs r)
      | _ \<Rightarrow> (Panic, r))"
| "DecodeValue fl (TSlice t) v r =
     (case ReadFull r 8 of
        (Some err, l, r') \<Rightarrow> (Err err, r')
      | (None, l, r') \<Rightarrow>
          if \<not> CanSet fl \<or> 2 ^ 63 \<le> Uint64 l then (Panic, r')
          else map_result VSlice
                 (DecodeElems (Index_slice fl) t (replicate (Uint64 l) (zero t)) r'))"
| "DecodeValue fl (TArray n t) v r =
     (case v of
        VArray xs \<Rightarrow> map_result VArray (DecodeElems (Index_array fl) t xs r)
      | _ \<Rightarrow> (Panic, r))"
| "DecodeValue fl (TMap kt vt) v r =
     (case ReadFull r 8 of
        (Some err, l, r') \<Rightarrow> (Err err, r')
      | (None, l, r') \<Rightarrow>
          if v = VMap None \<and> \<not> CanSet fl then (Panic, r')
          else map_result (\<lambda>ps. VMap (Some ps)) (DecodePairs fl kt vt (Uint64 l) [] r'))"
| "DecodeValue fl (TInt k) v r =
     (if \<not> CanSet fl then (Err ErrCantSet, r)
      else case ReadFull r 8 of
             (Some err, l, r') \<Rightarrow> (Err err, r')
           | (None, l, r') \<Rightarrow> (Ok (SetInt k (int64 (Uint64 l))), r'))"
| "DecodeValue fl (TUint k) v r =
     (if \<not> CanSet fl then (Err ErrCantSet, r)
      else case ReadFull r 8 of
             (Some err, l, r') \<Rightarrow> (Err err, r')
           | (None, l, r') \<Rightarrow> (Ok (SetUint k (Uint64 l)), r'))"
| "DecodeValue fl (TPointer t) v r =
     (case v of
        VPointer (Some x) \<Rightarrow> map_result (\<lambda>x'. VPointer (Some x')) (DecodeValue (Elem fl) t x r)
      | _ \<Rightarrow> (Panic, r))"
| "DecodeValue fl (TOther k) v r =
     (if \<not> CanSet fl then (Err ErrCantSet, r)
      else if CanInterface fl then
        (case binary_Read r k of
           (Some err, r') \<Rightarrow> (Err err, r')
         | (None, r') \<Rightarrow> (Ok v, r'))
      else (Ok v, r))"
| "DecodeFields fl [] vs r = (Ok [], r)"
| "DecodeFields fl ((exported, t) # fs) [] r = (Panic, r)"
| "DecodeFields fl ((exported, t) # fs) (v # vs) r =
     (if \<not> CanInterface (Field fl exported) then map_result ((#) v) (DecodeFields fl fs vs r)
      else case DecodeValue (Field fl exported) t v r of
             (Ok v', r') \<Rightarrow> map_result ((#) v') (DecodeFields fl fs vs r')
           | (Err e, r') \<Rightarrow> (Err e, r')
           | (Panic, r') \<Rightarrow> (Panic, r'))"
| "DecodeElems fl t [] r = (Ok [], r)"
| "DecodeElems fl t (x # xs) r =
     (case DecodeValue fl t x r of
        (Ok x', r') \<Rightarrow> map_result ((#) x') (DecodeElems fl t xs r')
      | (Err e, r') \<Rightarrow> (Err e, r')
      | (Panic, r') \<Rightarrow> (Panic, r'))"
| "DecodePairs fl kt vt 0 acc r = (Ok acc, r)"
| "DecodePairs fl kt vt (Suc n) acc r =
     (case DecodeValue (Elem New) kt (zero kt) r of
        (Ok key, r') \<Rightarrow>
          (case DecodeValue (Elem New) vt (zero vt) r' of
             (Ok elem, r'') \<Rightarrow>
               if ro fl then (Panic, r'')
               else DecodePairs fl kt vt n (SetMapIndex acc key elem) r''
           | (Err e, r'') \<Rightarrow> (Err e, r'')
           | (Panic, r'') \<Rightarrow> (Panic, r''))
      | (Err e, r') \<Rightarrow> (Err e, r')
      | (Panic, r') \<Rightarrow> (Panic, r'))"
  by pat_completeness auto

termination
  by (relation "measures
        [case_sum
           (case_sum (\<lambda>(fl, t, v, r). size t)
              (\<lambda>(fl, fs, vs, r). size_list (size_prod (\<lambda>_. 0) size) fs))
           (case_sum (\<lambda>(fl, t, xs, r). size t)
              (\<lambda>(fl, kt, vt, n, acc, r). size kt + size vt)),
         case_sum (case_sum (\<lambda>_. 0) (\<lambda>_. Suc 0)) (\<lambda>_. Suc 0),
         case_sum (\<lambda>_. 0)
           (case_sum (\<lambda>(fl, t, xs, r). length xs) (\<lambda>(fl, kt, vt, n, acc, r). n))]")
    auto

definition Decode :: "byte list \<Rightarrow> gtype \<Rightarrow> gval \<Rightarrow> gval result" where
  "Decode b t a = fst (DecodeValue ValueOf t a b)"

subsection \<open>Well-typed values and the predicates of the properties\<close>

text \<open>
  \<open>has_type t v\<close>: the data \<open>v\<close> is a Go value of type \<open>t\<close>. Integers lie in the range
  of their kind, a struct has one value per field, an array has the length of its type,
  the keys of a map are distinct, and lengths fit an \<^verbatim>\<open>int\<close>.
\<close>

fun okind_of :: "oval \<Rightarrow> okind" where
  "okind_of (OBool b) = KBool"
| "okind_of (OFloat32 w) = KFloat32"
| "okind_of (OFloat64 w) = KFloat64"
| "okind_of (OComplex64 re im) = KComplex64"
| "okind_of (OComplex128 re im) = KComplex128"

function (sequential) has_type :: "gtype \<Rightarrow> gval \<Rightarrow> bool"
  and has_types :: "(bool \<times> gtype) list \<Rightarrow> gval list \<Rightarrow> bool"
  and all_have_type :: "gtype \<Rightarrow> gval list \<Rightarrow> bool"
  and pairs_have_type :: "gtype \<Rightarrow> gtype \<Rightarrow> (gval \<times> gval) list \<Rightarrow> bool" where
  "has_type TString v = (case v of VString val \<Rightarrow> length val < 2 ^ 63 | _ \<Rightarrow> False)"
| "has_type (TStruct fs) v = (case v of VStruct vs \<Rightarrow> has_types fs vs | _ \<Rightarrow> False)"
| "has_type (TSlice t) v =
     (case v of VSlice xs \<Rightarrow> length xs < 2 ^ 63 \<and> all_have_type t xs | _ \<Rightarrow> False)"
| "has_type (TArray n t) v =
     (case v of VArray xs \<Rightarrow> length xs = n \<and> all_have_type t xs | _ \<Rightarrow> False)"
| "has_type (TMap kt vt) v =
     (case v of
        VMap None \<Rightarrow> True
      | VMap (Some ps) \<Rightarrow>
          length ps < 2 ^ 63 \<and> distinct (map fst ps) \<and> pairs_have_type kt vt ps
      | _ \<Rightarrow> False)"
| "has_type (TInt k) v =
     (case v of VInt x \<Rightarrow> - (2 ^ (ibits k - 1)) \<le> x \<and> x < 2 ^ (ibits k - 1) | _ \<Rightarrow> False)"
| "has_type (TUint k) v = (case v of VUint u \<Rightarrow> u < 2 ^ ubits k | _ \<Rightarrow> False)"
| "has_type (TPointer t) v =
     (case v of VPointer None \<Rightarrow> True | VPointer (Some x) \<Rightarrow> has_type t x | _ \<Rightarrow> False)"
| "has_type (TOther k) v = (case v of VOther x \<Rightarrow> okind_of x = k | _ \<Rightarrow> False)"
| "has_types [] vs = (vs = [])"
| "has_types ((exported, t) # fs) [] = False"
| "has_types ((exported, t) # fs) (v # vs) = (has_type t v \<and> has_types fs vs)"
| "all_have_type t [] = True"
| "all_have_type t (x # xs) = (has_type t x \<and> all_have_type t xs)"
| "pairs_have_type kt vt [] = True"
| "pairs_have_type kt vt ((key, elem) # ps) =
     (has_type kt key \<and> has_type vt elem \<and> pairs_have_type kt vt ps)"
  by pat_completeness auto

termination
  by (relation "measures
        [case_sum
           (case_sum (\<lambda>(t, v). size t) (\<lambda>(fs, vs). size_list (size_prod (\<lambda>_. 0) size) fs))
           (case_sum (\<lambda>(t, xs). size t) (\<lambda>(kt, vt, ps). size kt + size vt)),
         case_sum (case_sum (\<lambda>_. 0) (\<lambda>_. Suc 0)) (\<lambda>_. Suc 0),
         case_sum (\<lambda>_. 0) (case_sum (\<lambda>(t, xs). length xs) (\<lambda>(kt, vt, ps). length ps))]")
    auto

text \<open>
  \<open>plain t\<close>: every part of \<open>t\<close> that the codec visits has one of the seven kinds the
  two switches name on both sides: string, struct, slice, array, map, signed integer,
  unsigned integer. No visited part is a pointer or falls to the default branch.
  Fields that are not exported are not visited.
\<close>

fun plain :: "gtype \<Rightarrow> bool"
  and plain_fields :: "(bool \<times> gtype) list \<Rightarrow> bool" where
  "plain TString = True"
| "plain (TStruct fs) = plain_fields fs"
| "plain (TSlice t) = plain t"
| "plain (TArray n t) = plain t"
| "plain (TMap kt vt) = (plain kt \<and> plain vt)"
| "plain (TInt k) = True"
| "plain (TUint k) = True"
| "plain (TPointer t) = False"
| "plain (TOther k) = False"
| "plain_fields [] = True"
| "plain_fields ((exported, t) # fs) = ((if exported then plain t else True) \<and> plain_fields fs)"


text \<open>
  \<open>restored t v\<close> is \<open>v\<close> as a decoder can give it back: a field that is not exported
  holds the zero value of its type, and a nil map is an empty map.
\<close>

function (sequential) restored :: "gtype \<Rightarrow> gval \<Rightarrow> gval"
  and restored_fields :: "(bool \<times> gtype) list \<Rightarrow> gval list \<Rightarrow> gval list"
  and restored_elems :: "gtype \<Rightarrow> gval list \<Rightarrow> gval list"
  and restored_pairs :: "gtype \<Rightarrow> gtype \<Rightarrow> (gval \<times> gval) list \<Rightarrow> (gval \<times> gval) list" where
  "restored (TStruct fs) v = (case v of VStruct vs \<Rightarrow> VStruct (restored_fields fs vs) | _ \<Rightarrow> v)"
| "restored (TSlice t) v = (case v of VSlice xs \<Rightarrow> VSlice (restored_elems t xs) | _ \<Rightarrow> v)"
| "restored (TArray n t) v = (case v of VArray xs \<Rightarrow> VArray (restored_elems t xs) | _ \<Rightarrow> v)"
| "restored (TMap kt vt) v =
     (case v of
        VMap None \<Rightarrow> VMap (Some [])
      | VMap (Some ps) \<Rightarrow> VMap (Some (restored_pairs kt vt ps))
      | _ \<Rightarrow> v)"
| "restored (TPointer t) v =
     (case v of VPointer (Some x) \<Rightarrow> VPointer (Some (restored t x)) | _ \<Rightarrow> v)"
| "restored TString v = v"
| "restored (TInt k) v = v"
| "restored (TUint k) v = v"
| "restored (TOther k) v = v"
| "restored_fields [] vs = []"
| "restored_fields ((exported, t) # fs) [] = []"
| "restored_fields ((exported, t) # fs) (v # vs) =
     (if exported then restored t v else zero t) # restored_fields fs vs"
| "restored_elems t [] = []"
| "restored_elems t (x # xs) = restored t x # restored_elems t xs"
| "restored_pairs kt vt [] = []"
| "restored_pairs kt vt ((key, elem) # ps) =
     (restored kt key, restored vt elem) # restored_pairs kt vt ps"
  by pat_completeness auto

termination
  by (relation "measures
        [case_sum
           (case_sum (\<lambda>(t, v). size t) (\<lambda>(fs, vs). size_list (size_prod (\<lambda>_. 0) size) fs))
           (case_sum (\<lambda>(t, xs). size t) (\<lambda>(kt, vt, ps). size kt + size vt)),
         case_sum (case_sum (\<lambda>_. 0) (\<lambda>_. Suc 0)) (\<lambda>_. Suc 0),
         case_sum (\<lambda>_. 0) (case_sum (\<lambda>(t, xs). length xs) (\<lambda>(kt, vt, ps). length ps))]")
    auto

text \<open>
  \<open>restorable t v\<close>: in every map of \<open>v\<close> that the codec visits, the keys are still
  distinct when their fields that are not exported are disregarded. Two keys that differ
  only in such a field have the same encoding.
\<close>

function (sequential) restorable :: "gtype \<Rightarrow> gval \<Rightarrow> bool"
  and restorable_fields :: "(bool \<times> gtype) list \<Rightarrow> gval list \<Rightarrow> bool"
  and restorable_elems :: "gtype \<Rightarrow> gval list \<Rightarrow> bool"
  and restorable_pairs :: "gtype \<Rightarrow> gtype \<Rightarrow> (gval \<times> gval) list \<Rightarrow> bool" where
  "restorable (TStruct fs) v = (case v of VStruct vs \<Rightarrow> restorable_fields fs vs | _ \<Rightarrow> True)"
| "restorable (TSlice t) v = (case v of VSlice xs \<Rightarrow> restorable_elems t xs | _ \<Rightarrow> True)"
| "restorable (TArray n t) v = (case v of VArray xs \<Rightarrow> restorable_elems t xs | _ \<Rightarrow> True)"
| "restorable (TMap kt vt) v =
     (case v of
        VMap (Some ps) \<Rightarrow>
          distinct (map fst (restored_pairs kt vt ps)) \<and> restorable_pairs kt vt ps
      | _ \<Rightarrow> True)"
| "restorable (TPointer t) v = (case v of VPointer (Some x) \<Rightarrow> restorable t x | _ \<Rightarrow> True)"
| "restorable TString v = True"
| "restorable (TInt k) v = True"
| "restorable (TUint k) v = True"
| "restorable (TOther k) v = True"
| "restorable_fields [] vs = True"
| "restorable_fields ((exported, t) # fs) [] = True"
| "restorable_fields ((exported, t) # fs) (v # vs) =
     ((if exported then restorable t v else True) \<and> restorable_fields fs vs)"
| "restorable_elems t [] = True"
| "restorable_elems t (x # xs) = (restorable t x \<and> restorable_elems t xs)"
| "restorable_pairs kt vt [] = True"
| "restorable_pairs kt vt ((key, elem) # ps) =
     (restorable kt key \<and> restorable vt elem \<and> restorable_pairs kt vt ps)"
  by pat_completeness auto

termination
  by (relation "measures
        [case_sum
           (case_sum (\<lambda>(t, v). size t) (\<lambda>(fs, vs). size_list (size_prod (\<lambda>_. 0) size) fs))
           (case_sum (\<lambda>(t, xs). size t) (\<lambda>(kt, vt, ps). size kt + size vt)),
         case_sum (case_sum (\<lambda>_. 0) (\<lambda>_. Suc 0)) (\<lambda>_. Suc 0),
         case_sum (\<lambda>_. 0) (case_sum (\<lambda>(t, xs). length xs) (\<lambda>(kt, vt, ps). length ps))]")
    auto

text \<open>\<open>no_map t\<close>: no map type occurs in \<open>t\<close>, in a field that is exported or not.\<close>

fun no_map :: "gtype \<Rightarrow> bool"
  and no_map_fields :: "(bool \<times> gtype) list \<Rightarrow> bool" where
  "no_map (TMap kt vt) = False"
| "no_map (TStruct fs) = no_map_fields fs"
| "no_map (TSlice t) = no_map t"
| "no_map (TArray n t) = no_map t"
| "no_map (TPointer t) = no_map t"
| "no_map TString = True"
| "no_map (TInt k) = True"
| "no_map (TUint k) = True"
| "no_map (TOther k) = True"
| "no_map_fields [] = True"
| "no_map_fields ((exported, t) # fs) = (no_map t \<and> no_map_fields fs)"


text \<open>
  The record that holds only the exported fields of a record: its type and its data.
\<close>

definition exported_fields :: "(bool \<times> gtype) list \<Rightarrow> (bool \<times> gtype) list" where
  "exported_fields fs = filter fst fs"

fun exported_values :: "(bool \<times> gtype) list \<Rightarrow> gval list \<Rightarrow> gval list" where
  "exported_values [] vs = []"
| "exported_values ((exported, t) # fs) [] = []"
| "exported_values ((exported, t) # fs) (v # vs) =
     (if exported then v # exported_values fs vs else exported_values fs vs)"

definition exported_record :: "(bool \<times> gtype) list \<Rightarrow> gval \<Rightarrow> gval" where
  "exported_record fs v = (case v of VStruct vs \<Rightarrow> VStruct (exported_values fs vs) | _ \<Rightarrow> v)"

text \<open>
  \<open>short_read res\<close>: the decoder returned one of the two end-of-stream errors of
  \<^verbatim>\<open>io.ReadFull\<close>.
\<close>

definition short_read :: "'a result \<times> reader \<Rightarrow> bool" where
  "short_read res = (fst res = Err EOF \<or> fst res = Err ErrUnexpectedEOF)"

text \<open>
  \<open>round_trips t\<close>: whenever a value of type \<open>t\<close> is encoded without error, decoding
  the bytes, whatever follows them in the stream, into a settable zero value of type
  \<open>t\<close> succeeds, consumes exactly the bytes of the encoding and, when the value is
  restorable, gives the value as restored.
\<close>

definition round_trips :: "gtype \<Rightarrow> bool" where
  "round_trips t = (\<forall>v fe fd rest b. has_type t v \<longrightarrow> \<not> ro fe \<longrightarrow> CanSet fd \<longrightarrow>
     EncodeValue fe t v = Ok b \<longrightarrow>
     (\<exists>v'. DecodeValue fd t (zero t) (b @ rest) = (Ok v', rest)
        \<and> (restorable t v \<longrightarrow> v' = restored t v)))"

text \<open>
  \<open>prefix_fails t\<close>: when the stream holds only a proper prefix \<open>p\<close> of the encoding of
  a value of type \<open>t\<close>, decoding into a settable zero value of type \<open>t\<close> returns an
  end-of-stream error.
\<close>

definition prefix_fails :: "gtype \<Rightarrow> bool" where
  "prefix_fails t = (\<forall>v fe fd b p s. has_type t v \<longrightarrow> \<not> ro fe \<longrightarrow> CanSet fd \<longrightarrow>
     EncodeValue fe t v = Ok b \<longrightarrow> b = p @ s \<longrightarrow> s \<noteq> [] \<longrightarrow>
     short_read (DecodeValue fd t (zero t) p))"

section \<open>Properties\<close>

subsection \<open>Byte order and conversions\<close>

lemma put_le_8:
  "put_le 8 u =
     [word_of_nat (u mod 256), word_of_nat (u div 256 mod 256),
      word_of_nat (u div 256 div 256 mod 256),
      word_of_nat (u div 256 div 256 div 256 mod 256),
      word_of_nat (u div 256 div 256 div 256 div 256 mod 256),
      word_of_nat (u div 256 div 256 div 256 div 256 div 256 mod 256),
      word_of_nat (u div 256 div 256 div 256 div 256 div 256 div 256 mod 256),
      word_of_nat (u div 256 div 256 div 256 div 256 div 256 div 256 div 256 mod 256)]"
proof -
  have e: "(8::nat) = Suc (Suc (Suc (Suc (Suc (Suc (Suc (Suc 0)))))))" by simp
  show ?thesis unfolding e by (simp only: put_le.simps)
qed

lemma length_put_le [simp]: "length (put_le n u) = n"
  by (induction n arbitrary: u) simp_all

lemma get_le_put_le: "get_le (put_le n u) = u mod 256 ^ n"
proof (induction n arbitrary: u)
  case 0
  show ?case by simp
next
  case (Suc n)
  have b: "unat (word_of_nat (u mod 256) :: byte) = u mod 256"
    by (simp add: unat_of_nat)
  have "get_le (put_le (Suc n) u) = u mod 256 + 256 * (u div 256 mod 256 ^ n)"
    using Suc [of "u div 256"] b by simp
  also have "\<dots> = u mod (256 * 256 ^ n)"
    by (simp add: mod_mult2_eq)
  finally show ?case by simp
qed

lemma length_PutUint64 [simp]: "length (PutUint64 u) = 8"
  by (simp add: PutUint64_def)

lemma Uint64_PutUint64 [simp]: "Uint64 (PutUint64 u @ rest) = u mod 2 ^ 64"
proof -
  have "Uint64 (PutUint64 u @ rest) = get_le (put_le 8 u)"
    by (simp add: Uint64_def PutUint64_def)
  also have "\<dots> = u mod 256 ^ 8"
    by (rule get_le_put_le)
  finally show ?thesis by simp
qed

lemma ReadFull_PutUint64 [simp]: "ReadFull (PutUint64 u @ rest) 8 = (None, PutUint64 u, rest)"
proof -
  have "PutUint64 u \<noteq> []"
    using length_PutUint64 [of u] by (metis length_0_conv zero_neq_numeral)
  then show ?thesis by (simp add: ReadFull_def)
qed

lemma string_of_bytes_of [simp]: "string_of (bytes_of val) = val"
proof -
  have "char_of (unat (word_of_nat (of_char c) :: byte)) = c" for c
    by (simp add: unat_of_nat)
  then show ?thesis
    by (simp add: string_of_def bytes_of_def map_idI)
qed

lemma length_bytes_of [simp]: "length (bytes_of val) = length val"
  by (simp add: bytes_of_def)

lemma uint64_int:
  assumes "n < 2 ^ 64"
  shows "uint64 (int n) = n"
proof -
  have "int n < 2 ^ 64" using assms by simp
  then have "int n mod 2 ^ 64 = int n" by simp
  then show ?thesis by (simp add: uint64_def)
qed

lemma SetInt_int64_uint64:
  assumes "- (2 ^ (ibits k - 1)) \<le> x" and "x < 2 ^ (ibits k - 1)"
  shows "SetInt k (int64 (uint64 x mod 2 ^ 64)) = VInt x"
proof -
  have le: "ibits k - 1 \<le> 63" by (cases k) simp_all
  have "int (uint64 x mod 2 ^ 64) = take_bit 64 x"
    by (simp add: uint64_def take_bit_eq_mod)
  then have "int64 (uint64 x mod 2 ^ 64) = signed_take_bit 63 x"
    by (simp add: int64_def signed_take_bit_take_bit)
  then have "SetInt k (int64 (uint64 x mod 2 ^ 64)) = VInt (signed_take_bit (ibits k - 1) x)"
    using le by (simp add: SetInt_def min_def)
  also have "signed_take_bit (ibits k - 1) x = x"
    using assms by (simp add: signed_take_bit_int_eq_self)
  finally show ?thesis .
qed

lemma SetUint_mod:
  assumes "u < 2 ^ ubits k"
  shows "SetUint k (u mod 2 ^ 64) = VUint u"
proof -
  have "(2::nat) ^ ubits k \<le> 2 ^ 64" by (cases k) simp_all
  with assms have "u < 2 ^ 64" by linarith
  with assms show ?thesis by (simp add: SetUint_def)
qed


subsection \<open>The encoder succeeds on the seven kinds\<close>

lemma CanInterface_Field [simp]: "CanInterface (Field fl exported) = (exported \<and> \<not> ro fl)"
  by (auto simp add: CanInterface_def Field_def)








text \<open>
  A type whose visited parts have the seven kinds is not enough for this when a field
  that is not exported holds a float: a map key with a NaN in such a field is encoded
  (the field is passed over) and then not found by \<^verbatim>\<open>MapIndex\<close>.
\<close>

lemma nan_key_not_found:
  "plain (TMap (TStruct [(False, TOther KFloat64)]) (TInt KInt))
   \<and> has_type (TMap (TStruct [(False, TOther KFloat64)]) (TInt KInt))
        (VMap (Some [(VStruct [VOther (OFloat64 0x7FF8000000000000)], VInt 1)]))
   \<and> Encode (TMap (TStruct [(False, TOther KFloat64)]) (TInt KInt))
        (VMap (Some [(VStruct [VOther (OFloat64 0x7FF8000000000000)], VInt 1)])) = Panic"
  by (simp add: Encode_def nan64_def)


subsection \<open>The order of the keys matters only in a map\<close>

lemma EncodeValueOrd_id:
  "EncodeValueOrd (\<lambda>ks. ks) fl t v = EncodeValue fl t v"
  "EncodeFieldsOrd (\<lambda>ks. ks) fl fs vs = EncodeFields fl fs vs"
  "EncodeElemsOrd (\<lambda>ks. ks) fl t xs = EncodeElems fl t xs"
  "EncodePairsOrd (\<lambda>ks. ks) fl kt vt m keys = EncodePairs fl kt vt m keys"
  by (induction fl t v and fl fs vs and fl t xs and fl kt vt m keys
      rule: EncodeValue_EncodeFields_EncodeElems_EncodePairs.induct)
     (auto split: gval.splits result.splits option.splits)

lemma EncodeValueOrd_no_map:
  "no_map t \<Longrightarrow> EncodeValueOrd ord fl t v = EncodeValueOrd ord' fl t v"
  "no_map_fields fs \<Longrightarrow> EncodeFieldsOrd ord fl fs vs = EncodeFieldsOrd ord' fl fs vs"
  "no_map t \<Longrightarrow> EncodeElemsOrd ord fl t xs = EncodeElemsOrd ord' fl t xs"
  "no_map kt \<and> no_map vt \<Longrightarrow>
     EncodePairsOrd ord fl kt vt m keys = EncodePairsOrd ord' fl kt vt m keys"
  by (induction ord fl t v and ord fl fs vs and ord fl t xs and ord fl kt vt m keys
      rule: EncodeValueOrd_EncodeFieldsOrd_EncodeElemsOrd_EncodePairsOrd.induct)
     (auto split: gval.splits result.splits option.splits)

subsection \<open>Fields that are not exported are passed over\<close>

lemma Field_exported [simp]: "Field fl True = fl"
  by (simp add: Field_def)

lemma map_result_comp: "map_result f (map_result g x) = map_result (f \<circ> g) x"
  by (cases x; cases "fst x") simp_all

lemma EncodeFields_exported:
  "length vs = length fs \<Longrightarrow>
     EncodeFields fl (exported_fields fs) (exported_values fs vs) = EncodeFields fl fs vs"
proof (induction fs arbitrary: vs)
  case Nil
  then show ?case by (simp add: exported_fields_def)
next
  case (Cons f fs)
  obtain e t where f: "f = (e, t)" by (cases f)
  from Cons.prems obtain v vs' where vs: "vs = v # vs'" and len: "length vs' = length fs"
    by (cases vs) auto
  have ih: "EncodeFields fl (exported_fields fs) (exported_values fs vs') = EncodeFields fl fs vs'"
    using Cons.IH [OF len] .
  show ?case
    using ih f vs by (cases e) (simp_all add: exported_fields_def split: result.splits)
qed

lemma DecodeFields_exported:
  "length vs = length fs \<Longrightarrow>
     DecodeFields fl (exported_fields fs) (exported_values fs vs) r =
     map_result (exported_values fs) (DecodeFields fl fs vs r)"
proof (induction fs arbitrary: vs r)
  case Nil
  then show ?case by (simp add: exported_fields_def)
next
  case (Cons f fs)
  obtain e t where f: "f = (e, t)" by (cases f)
  from Cons.prems obtain v vs' where vs: "vs = v # vs'" and len: "length vs' = length fs"
    by (cases vs) auto
  have ih: "DecodeFields fl (exported_fields fs) (exported_values fs vs') r' =
      map_result (exported_values fs) (DecodeFields fl fs vs' r')" for r'
    using Cons.IH [OF len] .
  have skip: "map_result (exported_values ((False, t) # fs)) (map_result ((#) v) x) =
      map_result (exported_values fs) x" for x :: "gval list result \<times> reader"
    by (cases x; cases "fst x") simp_all
  have keep: "map_result (exported_values ((True, t) # fs)) (map_result ((#) v') x) =
      map_result ((#) v') (map_result (exported_values fs) x)"
    for x :: "gval list result \<times> reader" and v'
    by (cases x; cases "fst x") simp_all
  show ?case
  proof (cases "e \<and> \<not> ro fl")
    case True
    show ?thesis
    proof (cases "DecodeValue fl t v r")
      case (Pair res r')
      then show ?thesis
        using True f vs ih keep
        by (cases res) (simp_all add: exported_fields_def)
    qed
  next
    case False
    show ?thesis
    proof (cases e)
      case True
      with False have "ro fl" by simp
      then show ?thesis
        using True f vs ih [of r] keep [of v "DecodeFields fl fs vs' r"]
        by (simp add: exported_fields_def CanInterface_def)
    next
      case False
      then show ?thesis
        using f vs ih [of r] skip by (simp add: exported_fields_def)
    qed
  qed
qed

subsection \<open>Decoding what was encoded\<close>

lemma Uint64_PutUint64_bare [simp]: "Uint64 (PutUint64 u) = u mod 2 ^ 64"
  using Uint64_PutUint64 [of u "[]"] by simp

lemma ReadFull_append [simp]: "ReadFull (b @ rest) (length b) = (None, b, rest)"
  by (cases b) (simp_all add: ReadFull_def)

lemma DecodeValue_New:
  "DecodeValue New (TPointer t) (VPointer (Some (zero t))) r =
     map_result (\<lambda>x. VPointer (Some x)) (DecodeValue (Elem New) t (zero t) r)"
  by simp

lemma SetMapIndex_append:
  "key \<notin> fst ` set acc \<Longrightarrow> SetMapIndex acc key elem = acc @ [(key, elem)]"
  by (induction acc) auto

lemma CanSet_flags [simp]:
  "CanSet (Index_slice fl) = (\<not> ro fl)"
  "CanSet (Index_array fl) = CanSet fl"
  "CanSet (Elem fl) = (\<not> ro fl)"
  "CanSet fl \<Longrightarrow> \<not> ro fl"
  by (simp_all add: CanSet_def Index_slice_def Index_array_def Elem_def)

lemma ro_flags [simp]:
  "CanInterface fl = (\<not> ro fl)"
  "ro (Field fl exported) = (ro fl \<or> \<not> exported)"
  "ro (Index_slice fl) = ro fl"
  "ro (Index_array fl) = ro fl"
  "ro (MapElem fl) = ro fl"
  "ro New = False"
  "ro ValueOf = False"
  by (simp_all add: CanInterface_def Field_def Index_slice_def Index_array_def MapElem_def
      New_def ValueOf_def)

lemma EncodeFields_Cons_Ok:
  assumes "EncodeFields fe ((True, t) # fs) (v # vs) = Ok b" and "\<not> ro fe"
  obtains b1 b2 where "EncodeValue fe t v = Ok b1" and "EncodeFields fe fs vs = Ok b2"
    and "b = b1 @ b2"
  using assms
  by (cases "EncodeValue fe t v"; cases "EncodeFields fe fs vs") simp_all

lemma EncodeElems_Cons_Ok:
  assumes "EncodeElems fe t (x # xs) = Ok b"
  obtains b1 b2 where "EncodeValue fe t x = Ok b1" and "EncodeElems fe t xs = Ok b2"
    and "b = b1 @ b2"
  using assms
  by (cases "EncodeValue fe t x"; cases "EncodeElems fe t xs") simp_all

lemma EncodePairs_Cons_Ok:
  assumes "EncodePairs fe kt vt m (key # keys) = Ok b" and "MapIndex m key = Some elem"
  obtains bk be bs where "EncodeValue (MapElem fe) kt key = Ok bk"
    and "EncodeValue (MapElem fe) vt elem = Ok be"
    and "EncodePairs fe kt vt m keys = Ok bs" and "b = bk @ be @ bs"
  using assms
  by (cases "EncodeValue (MapElem fe) kt key"; cases "EncodeValue (MapElem fe) vt elem";
      cases "EncodePairs fe kt vt m keys") simp_all

lemma prepend_Ok:
  assumes "prepend l res = Ok b"
  obtains b' where "res = Ok b'" and "b = l @ b'"
  using assms by (cases res) simp_all

lemma EncodePairs_Cons_found:
  assumes "EncodePairs fe kt vt (Some ps) (key # keys) = Ok b" and "map_of ps key = Some elem"
  shows "MapIndex (Some ps) key = Some elem"
proof (cases "self_equal key")
  case True
  then show ?thesis using assms(2) by simp
next
  case False
  then have "MapIndex (Some ps) key = None" by simp
  then have "EncodePairs fe kt vt (Some ps) (key # keys) \<noteq> Ok b"
    by (simp split: result.splits)
  with assms(1) show ?thesis by simp
qed

lemma round_tripsD:
  assumes "round_trips t" "has_type t v" "\<not> ro fe" "CanSet fd" "EncodeValue fe t v = Ok b"
  obtains v' where "DecodeValue fd t (zero t) (b @ rest) = (Ok v', rest)"
    and "restorable t v \<Longrightarrow> v' = restored t v"
  using assms unfolding round_trips_def by blast

lemma round_trips_fields:
  assumes "\<And>e t. (e, t) \<in> set fs \<Longrightarrow> e \<Longrightarrow> round_trips t"
    and "has_types fs vs" and "\<not> ro fe" and "CanSet fd"
    and "EncodeFields fe fs vs = Ok b"
  shows "\<exists>vs'. DecodeFields fd fs (zero_fields fs) (b @ rest) = (Ok vs', rest)
      \<and> (restorable_fields fs vs \<longrightarrow> vs' = restored_fields fs vs)"
  using assms(1,2,5)
proof (induction fs arbitrary: vs rest b)
  case Nil
  then show ?case by simp
next
  case (Cons f fs)
  obtain e t where f: "f = (e, t)" by (cases f)
  from Cons.prems(2) f obtain v vs0 where vs: "vs = v # vs0" and tv: "has_type t v"
    and tl: "has_types fs vs0"
    by (cases vs) auto
  have ih: "\<exists>vs'. DecodeFields fd fs (zero_fields fs) (b' @ rest) = (Ok vs', rest)
      \<and> (restorable_fields fs vs0 \<longrightarrow> vs' = restored_fields fs vs0)"
    if "EncodeFields fe fs vs0 = Ok b'" for b'
  proof (rule Cons.IH)
    show "has_types fs vs0" by (rule tl)
    show "EncodeFields fe fs vs0 = Ok b'" by (rule that)
    show "round_trips t'" if "(e', t') \<in> set fs" "e'" for e' t'
      using Cons.prems(1) [of e' t'] that by simp
  qed
  have nro: "\<not> ro fd" using assms(4) by simp
  show ?case
  proof (cases e)
    case True
    then have rt: "round_trips t" using Cons.prems(1) [of e t] f by simp
    from Cons.prems(3) f vs True have "EncodeFields fe ((True, t) # fs) (v # vs0) = Ok b"
      by simp
    then obtain b1 b2 where b1: "EncodeValue fe t v = Ok b1"
      and b2: "EncodeFields fe fs vs0 = Ok b2" and eq: "b = b1 @ b2"
      using assms(3) by (elim EncodeFields_Cons_Ok) simp_all
    from ih [OF b2] obtain vs' where
      ds: "DecodeFields fd fs (zero_fields fs) (b2 @ rest) = (Ok vs', rest)"
      and rs: "restorable_fields fs vs0 \<Longrightarrow> vs' = restored_fields fs vs0"
      by blast
    obtain v' where d: "DecodeValue fd t (zero t) (b1 @ b2 @ rest) = (Ok v', b2 @ rest)"
      and r: "restorable t v \<Longrightarrow> v' = restored t v"
      using round_tripsD [OF rt tv assms(3,4) b1, of "b2 @ rest"] by blast
    have "DecodeFields fd (f # fs) (zero_fields (f # fs)) (b @ rest) = (Ok (v' # vs'), rest)"
      using True f d ds nro eq by simp
    moreover have "restorable_fields (f # fs) vs \<longrightarrow> v' # vs' = restored_fields (f # fs) vs"
      using True f vs r rs by simp
    ultimately show ?thesis by blast
  next
    case False
    with Cons.prems(3) f vs have "EncodeFields fe fs vs0 = Ok b" by simp
    from ih [OF this] obtain vs' where
      ds: "DecodeFields fd fs (zero_fields fs) (b @ rest) = (Ok vs', rest)"
      and rs: "restorable_fields fs vs0 \<Longrightarrow> vs' = restored_fields fs vs0"
      by blast
    have "DecodeFields fd (f # fs) (zero_fields (f # fs)) (b @ rest) =
        (Ok (zero t # vs'), rest)"
      using False f ds by simp
    moreover have "restorable_fields (f # fs) vs \<longrightarrow> zero t # vs' = restored_fields (f # fs) vs"
      using False f vs rs by simp
    ultimately show ?thesis by blast
  qed
qed

lemma round_trips_elems:
  assumes "round_trips t" and "all_have_type t xs" and "\<not> ro fe" and "CanSet fd"
    and "EncodeElems fe t xs = Ok b"
  shows "\<exists>xs'. DecodeElems fd t (replicate (length xs) (zero t)) (b @ rest) = (Ok xs', rest)
      \<and> (restorable_elems t xs \<longrightarrow> xs' = restored_elems t xs)"
  using assms(2,5)
proof (induction xs arbitrary: rest b)
  case Nil
  then show ?case by simp
next
  case (Cons x xs)
  then have tx: "has_type t x" and tl: "all_have_type t xs" by simp_all
  from Cons.prems(2) obtain b1 b2 where b1: "EncodeValue fe t x = Ok b1"
    and b2: "EncodeElems fe t xs = Ok b2" and eq: "b = b1 @ b2"
    by (elim EncodeElems_Cons_Ok) simp_all
  from Cons.IH [OF tl b2, of rest] obtain xs' where
    ds: "DecodeElems fd t (replicate (length xs) (zero t)) (b2 @ rest) = (Ok xs', rest)"
    and rs: "restorable_elems t xs \<Longrightarrow> xs' = restored_elems t xs"
    by blast
  obtain x' where d: "DecodeValue fd t (zero t) (b1 @ b2 @ rest) = (Ok x', b2 @ rest)"
    and r: "restorable t x \<Longrightarrow> x' = restored t x"
    using round_tripsD [OF assms(1) tx assms(3,4) b1, of "b2 @ rest"] by blast
  have "DecodeElems fd t (replicate (length (x # xs)) (zero t)) (b @ rest) =
      (Ok (x' # xs'), rest)"
    using d ds eq by simp
  moreover have "restorable_elems t (x # xs) \<longrightarrow> x' # xs' = restored_elems t (x # xs)"
    using r rs by simp
  ultimately show ?case by blast
qed

lemma round_trips_pairs:
  assumes "round_trips kt" and "round_trips vt" and "pairs_have_type kt vt qs"
    and "\<forall>q \<in> set qs. map_of ps (fst q) = Some (snd q)"
    and "\<not> ro fe" and "\<not> ro fd"
    and "EncodePairs fe kt vt (Some ps) (map fst qs) = Ok b"
  shows "\<exists>ps'. DecodePairs fd kt vt (length qs) acc (b @ rest) = (Ok ps', rest)
      \<and> (restorable_pairs kt vt qs \<and> distinct (map fst (restored_pairs kt vt qs))
           \<and> fst ` set acc \<inter> fst ` set (restored_pairs kt vt qs) = {}
         \<longrightarrow> ps' = acc @ restored_pairs kt vt qs)"
  using assms(3,4,7)
proof (induction qs arbitrary: acc rest b)
  case Nil
  then show ?case by simp
next
  case (Cons q qs)
  obtain key elem where q: "q = (key, elem)" by (cases q)
  from Cons.prems q have tk: "has_type kt key" and te: "has_type vt elem"
    and tl: "pairs_have_type kt vt qs" and mp: "map_of ps key = Some elem"
    and ixs: "\<forall>q \<in> set qs. map_of ps (fst q) = Some (snd q)"
    and enc: "EncodePairs fe kt vt (Some ps) (key # map fst qs) = Ok b"
    by simp_all
  have fe': "\<not> ro (MapElem fe)" using assms(5) by simp
  have fd': "CanSet (Elem New)" by simp
  have ix: "MapIndex (Some ps) key = Some elem"
    using enc mp by (rule EncodePairs_Cons_found)
  from enc ix obtain bk be bs where bk: "EncodeValue (MapElem fe) kt key = Ok bk"
    and be: "EncodeValue (MapElem fe) vt elem = Ok be"
    and bs: "EncodePairs fe kt vt (Some ps) (map fst qs) = Ok bs" and eq: "b = bk @ be @ bs"
    by (rule EncodePairs_Cons_Ok)
  obtain key' where
    dk: "DecodeValue (Elem New) kt (zero kt) (bk @ be @ bs @ rest) = (Ok key', be @ bs @ rest)"
    and rk: "restorable kt key \<Longrightarrow> key' = restored kt key"
    using round_tripsD [OF assms(1) tk fe' fd' bk, of "be @ bs @ rest"] by blast
  obtain elem' where
    de: "DecodeValue (Elem New) vt (zero vt) (be @ bs @ rest) = (Ok elem', bs @ rest)"
    and re: "restorable vt elem \<Longrightarrow> elem' = restored vt elem"
    using round_tripsD [OF assms(2) te fe' fd' be, of "bs @ rest"] by blast
  obtain ps' where
    ds: "DecodePairs fd kt vt (length qs) (SetMapIndex acc key' elem') (bs @ rest) = (Ok ps', rest)"
    and rs: "restorable_pairs kt vt qs \<and> distinct (map fst (restored_pairs kt vt qs))
           \<and> fst ` set (SetMapIndex acc key' elem') \<inter> fst ` set (restored_pairs kt vt qs) = {}
         \<Longrightarrow> ps' = SetMapIndex acc key' elem' @ restored_pairs kt vt qs"
    using Cons.IH [OF tl ixs bs, of "SetMapIndex acc key' elem'" rest] by blast
  have "DecodePairs fd kt vt (length (q # qs)) acc (b @ rest) = (Ok ps', rest)"
    using dk de ds assms(6) eq by simp
  moreover have "ps' = acc @ restored_pairs kt vt (q # qs)"
    if h: "restorable_pairs kt vt (q # qs) \<and> distinct (map fst (restored_pairs kt vt (q # qs)))
           \<and> fst ` set acc \<inter> fst ` set (restored_pairs kt vt (q # qs)) = {}"
  proof -
    from h q have k: "key' = restored kt key" and e: "elem' = restored vt elem"
      using rk re by simp_all
    from h q k have notin: "key' \<notin> fst ` set acc" by auto
    then have sm: "SetMapIndex acc key' elem' = acc @ [(key', elem')]"
      by (rule SetMapIndex_append)
    have "fst ` set (acc @ [(key', elem')]) \<inter> fst ` set (restored_pairs kt vt qs) = {}"
      using h q k by auto
    with h q sm have "ps' = (acc @ [(key', elem')]) @ restored_pairs kt vt qs"
      using rs by simp
    with q k e show ?thesis by simp
  qed
  ultimately show ?case by blast
qed

lemma pairs_have_type_set:
  "pairs_have_type kt vt ps \<Longrightarrow> p \<in> set ps \<Longrightarrow> has_type kt (fst p) \<and> has_type vt (snd p)"
  by (induction ps) auto

lemma round_trips_plain: "plain t \<Longrightarrow> round_trips t"
proof (induction t)
  case TString
  show ?case
    unfolding round_trips_def
  proof (intro allI impI)
    fix v :: gval and fe fd :: flag and rest b :: reader
    assume tv: "has_type TString v" and fd: "CanSet fd"
      and enc: "EncodeValue fe TString v = Ok b"
    then obtain val where v: "v = VString val" and len: "length val < 2 ^ 63"
      by (cases v) auto
    have n: "uint64 (int (length val)) = length val"
      using len by (intro uint64_int) simp
    have m: "length val mod 2 ^ 64 = length val" using len by simp
    from enc v n have b: "b = PutUint64 (length val) @ bytes_of val" by auto
    have "DecodeValue fd TString (zero TString)
        ((PutUint64 (length val) @ bytes_of val) @ rest) = (Ok (VString val), rest)"
      using fd len m ReadFull_append [of "bytes_of val" rest] by simp
    with v b show "\<exists>v'. DecodeValue fd TString (zero TString) (b @ rest) = (Ok v', rest)
        \<and> (restorable TString v \<longrightarrow> v' = restored TString v)"
      by (simp del: DecodeValue.simps)
  qed
next
  case (TStruct fs)
  have ih: "round_trips t" if "(e, t) \<in> set fs" "e" for e t
  proof -
    have "plain t" using TStruct.prems that by (induction fs) auto
    then show ?thesis using TStruct.IH [of "(e, t)" t] that by simp
  qed
  show ?case
    unfolding round_trips_def
  proof (intro allI impI)
    fix v :: gval and fe fd :: flag and rest b :: reader
    assume tv: "has_type (TStruct fs) v" and fe: "\<not> ro fe" and fd: "CanSet fd"
      and enc: "EncodeValue fe (TStruct fs) v = Ok b"
    from tv obtain vs where v: "v = VStruct vs" and vs: "has_types fs vs"
      by (cases v) auto
    have "\<exists>vs'. DecodeFields fd fs (zero_fields fs) (b @ rest) = (Ok vs', rest)
      \<and> (restorable_fields fs vs \<longrightarrow> vs' = restored_fields fs vs)"
    proof (rule round_trips_fields)
      show "round_trips t" if "(e, t) \<in> set fs" "e" for e t using ih that by blast
      show "has_types fs vs" by (rule vs)
      show "\<not> ro fe" by (rule fe)
      show "CanSet fd" by (rule fd)
      show "EncodeFields fe fs vs = Ok b" using enc v by simp
    qed
    then obtain vs' where "DecodeFields fd fs (zero_fields fs) (b @ rest) = (Ok vs', rest)"
      and "restorable_fields fs vs \<longrightarrow> vs' = restored_fields fs vs"
      by blast
    with v show "\<exists>v'. DecodeValue fd (TStruct fs) (zero (TStruct fs)) (b @ rest) = (Ok v', rest)
        \<and> (restorable (TStruct fs) v \<longrightarrow> v' = restored (TStruct fs) v)"
      by simp
  qed
next
  case (TSlice t)
  then have ih: "round_trips t" by simp
  show ?case
    unfolding round_trips_def
  proof (intro allI impI)
    fix v :: gval and fe fd :: flag and rest b :: reader
    assume tv: "has_type (TSlice t) v" and fe: "\<not> ro fe" and fd: "CanSet fd"
      and enc: "EncodeValue fe (TSlice t) v = Ok b"
    from tv obtain xs where v: "v = VSlice xs" and len: "length xs < 2 ^ 63"
      and xs: "all_have_type t xs"
      by (cases v) auto
    have n: "uint64 (int (length xs)) = length xs"
      using len by (intro uint64_int) simp
    have m: "length xs mod 2 ^ 64 = length xs" using len by simp
    have fe': "\<not> ro (Index_slice fe)" using fe by simp
    have fd': "CanSet (Index_slice fd)" using fd by simp
    from enc v n have "prepend (PutUint64 (length xs)) (EncodeElems (Index_slice fe) t xs) = Ok b"
      by simp
    then obtain b' where b': "EncodeElems (Index_slice fe) t xs = Ok b'"
      and b: "b = PutUint64 (length xs) @ b'"
      by (rule prepend_Ok)
    from round_trips_elems [OF ih xs fe' fd' b', of rest]
    obtain xs' where
      d: "DecodeElems (Index_slice fd) t (replicate (length xs) (zero t)) (b' @ rest) = (Ok xs', rest)"
      and r: "restorable_elems t xs \<longrightarrow> xs' = restored_elems t xs"
      by blast
    have "DecodeValue fd (TSlice t) (zero (TSlice t)) ((PutUint64 (length xs) @ b') @ rest) =
        (Ok (VSlice xs'), rest)"
      using fd len m d by simp
    with v b r show "\<exists>v'. DecodeValue fd (TSlice t) (zero (TSlice t)) (b @ rest) = (Ok v', rest)
        \<and> (restorable (TSlice t) v \<longrightarrow> v' = restored (TSlice t) v)"
      by (simp del: DecodeValue.simps)
  qed
next
  case (TArray n t)
  then have ih: "round_trips t" by simp
  show ?case
    unfolding round_trips_def
  proof (intro allI impI)
    fix v :: gval and fe fd :: flag and rest b :: reader
    assume tv: "has_type (TArray n t) v" and fe: "\<not> ro fe" and fd: "CanSet fd"
      and enc: "EncodeValue fe (TArray n t) v = Ok b"
    from tv obtain xs where v: "v = VArray xs" and len: "length xs = n"
      and xs: "all_have_type t xs"
      by (cases v) auto
    have fe': "\<not> ro (Index_array fe)" using fe by simp
    have fd': "CanSet (Index_array fd)" using fd by simp
    from enc v have b: "EncodeElems (Index_array fe) t xs = Ok b" by simp
    from round_trips_elems [OF ih xs fe' fd' b, of rest]
    obtain xs' where
      d: "DecodeElems (Index_array fd) t (replicate (length xs) (zero t)) (b @ rest) = (Ok xs', rest)"
      and r: "restorable_elems t xs \<longrightarrow> xs' = restored_elems t xs"
      by blast
    with v len show "\<exists>v'. DecodeValue fd (TArray n t) (zero (TArray n t)) (b @ rest) = (Ok v', rest)
        \<and> (restorable (TArray n t) v \<longrightarrow> v' = restored (TArray n t) v)"
      by simp
  qed
next
  case (TMap kt vt)
  then have ihk: "round_trips kt" and ihv: "round_trips vt" by simp_all
  show ?case
    unfolding round_trips_def
  proof (intro allI impI)
    fix v :: gval and fe fd :: flag and rest b :: reader
    assume tv: "has_type (TMap kt vt) v" and fe: "\<not> ro fe" and fd: "CanSet fd"
      and enc: "EncodeValue fe (TMap kt vt) v = Ok b"
    from tv obtain m where v: "v = VMap m" by (cases v) auto
    have nro: "\<not> ro fd" using fd by simp
    from enc v have
      "prepend (PutUint64 (uint64 (int (Len m)))) (EncodePairs fe kt vt m (MapKeys m)) = Ok b"
      by simp
    then obtain b' where b': "EncodePairs fe kt vt m (MapKeys m) = Ok b'"
      and b: "b = PutUint64 (uint64 (int (Len m))) @ b'"
      by (rule prepend_Ok)
    show "\<exists>v'. DecodeValue fd (TMap kt vt) (zero (TMap kt vt)) (b @ rest) = (Ok v', rest)
        \<and> (restorable (TMap kt vt) v \<longrightarrow> v' = restored (TMap kt vt) v)"
    proof (cases m)
      case None
      have "DecodeValue fd (TMap kt vt) (zero (TMap kt vt)) (PutUint64 0 @ rest) =
          (Ok (VMap (Some [])), rest)"
        using fd by simp
      with v None b b' show ?thesis by (simp add: uint64_def del: DecodeValue.simps)
    next
      case (Some ps)
      with tv v have len: "length ps < 2 ^ 63" and d: "distinct (map fst ps)"
        and pt: "pairs_have_type kt vt ps"
        by auto
      have n: "uint64 (int (length ps)) = length ps"
        using len by (intro uint64_int) simp
      have m: "length ps mod 2 ^ 64 = length ps" using len by simp
      have ix: "\<forall>q \<in> set ps. map_of ps (fst q) = Some (snd q)"
        using d by simp
      have bp: "EncodePairs fe kt vt (Some ps) (map fst ps) = Ok b'"
        using b' Some by simp
      from round_trips_pairs [OF ihk ihv pt ix fe nro bp, of "[]" rest]
      obtain ps' where dd: "DecodePairs fd kt vt (length ps) [] (b' @ rest) = (Ok ps', rest)"
        and r: "restorable_pairs kt vt ps \<and> distinct (map fst (restored_pairs kt vt ps))
            \<longrightarrow> ps' = restored_pairs kt vt ps"
        by auto
      have "DecodeValue fd (TMap kt vt) (zero (TMap kt vt)) ((PutUint64 (length ps) @ b') @ rest) =
          (Ok (VMap (Some ps')), rest)"
        using fd m dd by simp
      with v Some n b r show ?thesis by (simp del: DecodeValue.simps)
    qed
  qed
next
  case (TInt k)
  show ?case
    unfolding round_trips_def
  proof (intro allI impI)
    fix v :: gval and fe fd :: flag and rest b :: reader
    assume tv: "has_type (TInt k) v" and fd: "CanSet fd"
      and enc: "EncodeValue fe (TInt k) v = Ok b"
    from tv obtain x where v: "v = VInt x" and lo: "- (2 ^ (ibits k - 1)) \<le> x"
      and hi: "x < 2 ^ (ibits k - 1)"
      by (cases v) auto
    from enc v have b: "b = PutUint64 (uint64 x)" by auto
    have "DecodeValue fd (TInt k) (zero (TInt k)) (PutUint64 (uint64 x) @ rest) = (Ok (VInt x), rest)"
      using fd SetInt_int64_uint64 [OF lo hi] by simp
    with v b show "\<exists>v'. DecodeValue fd (TInt k) (zero (TInt k)) (b @ rest) = (Ok v', rest)
        \<and> (restorable (TInt k) v \<longrightarrow> v' = restored (TInt k) v)"
      by (simp del: DecodeValue.simps)
  qed
next
  case (TUint k)
  show ?case
    unfolding round_trips_def
  proof (intro allI impI)
    fix v :: gval and fe fd :: flag and rest b :: reader
    assume tv: "has_type (TUint k) v" and fd: "CanSet fd"
      and enc: "EncodeValue fe (TUint k) v = Ok b"
    from tv obtain u where v: "v = VUint u" and hi: "u < 2 ^ ubits k"
      by (cases v) auto
    from enc v have b: "b = PutUint64 u" by auto
    have "DecodeValue fd (TUint k) (zero (TUint k)) (PutUint64 u @ rest) = (Ok (VUint u), rest)"
      using fd SetUint_mod [OF hi] by simp
    with v b show "\<exists>v'. DecodeValue fd (TUint k) (zero (TUint k)) (b @ rest) = (Ok v', rest)
        \<and> (restorable (TUint k) v \<longrightarrow> v' = restored (TUint k) v)"
      by (simp del: DecodeValue.simps)
  qed
next
  case (TPointer t)
  then show ?case by simp
next
  case (TOther k)
  then show ?case by simp
qed


subsection \<open>Types in which every leaf is reached\<close>






subsection \<open>Decoding a stream that ends too early\<close>

lemma short_read_map_result [simp]: "short_read (map_result f x) = short_read x"
  by (cases x; cases "fst x") (simp_all add: short_read_def)

lemma short_read_Err [simp]:
  "short_read (Err e, r) = (e = EOF \<or> e = ErrUnexpectedEOF)"
  "short_read (Ok a, r) = False"
  "short_read (Panic, r) = False"
  by (simp_all add: short_read_def)

lemma short_readE:
  assumes "short_read res"
  obtains e r where "res = (Err e, r)" and "e = EOF \<or> e = ErrUnexpectedEOF"
  using assms by (cases res) (auto simp add: short_read_def)

lemma ReadFull_short:
  assumes "length p < n"
  obtains e bs r where "ReadFull p n = (Some e, bs, r)" and "e = EOF \<or> e = ErrUnexpectedEOF"
  using assms by (cases "p = []") (auto simp add: ReadFull_def)

lemma append_split:
  assumes "a @ b = p @ s"
  obtains u where "u \<noteq> []" and "a = p @ u"
  | u where "p = a @ u" and "b = u @ s"
proof -
  from assms consider u where "a = p @ u" "u @ b = s" | u where "a @ u = p" "b = u @ s"
    by (auto simp add: append_eq_append_conv2)
  then show ?thesis
  proof cases
    case 1
    show ?thesis
    proof (cases "u = []")
      case True
      with 1 have "p = a @ []" "b = [] @ s" by simp_all
      then show ?thesis by (rule that(2))
    next
      case False
      then show ?thesis using 1 that(1) by blast
    qed
  next
    case 2
    then show ?thesis using that(2) by blast
  qed
qed

lemma header_split:
  assumes "PutUint64 n @ body = p @ s" and "s \<noteq> []"
  obtains "length p < 8"
  | u where "p = PutUint64 n @ u" and "body = u @ s"
proof -
  from assms(1) show ?thesis
  proof (cases rule: append_split)
    case (1 u)
    from 1(2) have "length (PutUint64 n) = length (p @ u)" by (rule arg_cong)
    then have "8 = length p + length u" by simp
    moreover from 1(1) have "0 < length u" by simp
    ultimately have "length p < 8" by linarith
    then show ?thesis by (rule that(1))
  next
    case (2 u)
    then show ?thesis by (rule that(2))
  qed
qed

lemma round_trips_decode:
  assumes "round_trips t" "has_type t v" "\<not> ro fe" "CanSet fd" "EncodeValue fe t v = Ok b"
  obtains v' where "DecodeValue fd t (zero t) (b @ rest) = (Ok v', rest)"
  using round_tripsD [OF assms, of rest] by blast

lemma prefix_failsD:
  assumes "prefix_fails t" "has_type t v" "\<not> ro fe" "CanSet fd" "EncodeValue fe t v = Ok (p @ s)"
    "s \<noteq> []"
  shows "short_read (DecodeValue fd t (zero t) p)"
  using assms unfolding prefix_fails_def by blast

lemma prefix_fails_fields:
  assumes "\<And>e t. (e, t) \<in> set fs \<Longrightarrow> e \<Longrightarrow> round_trips t \<and> prefix_fails t"
    and "has_types fs vs" and "\<not> ro fe" and "CanSet fd"
    and "EncodeFields fe fs vs = Ok (p @ s)" and "s \<noteq> []"
  shows "short_read (DecodeFields fd fs (zero_fields fs) p)"
  using assms(1,2,5)
proof (induction fs arbitrary: vs p)
  case Nil
  then show ?case using assms(6) by simp
next
  case (Cons f fs)
  obtain e t where f: "f = (e, t)" by (cases f)
  from Cons.prems(2) f obtain v vs0 where vs: "vs = v # vs0" and tv: "has_type t v"
    and tl: "has_types fs vs0"
    by (cases vs) auto
  have ih: "short_read (DecodeFields fd fs (zero_fields fs) p')"
    if "EncodeFields fe fs vs0 = Ok (p' @ s)" for p'
  proof (rule Cons.IH)
    show "has_types fs vs0" by (rule tl)
    show "EncodeFields fe fs vs0 = Ok (p' @ s)" by (rule that)
    show "round_trips t' \<and> prefix_fails t'" if "(e', t') \<in> set fs" "e'" for e' t'
      using Cons.prems(1) [of e' t'] that by simp
  qed
  have nro: "\<not> ro fd" using assms(4) by simp
  show ?case
  proof (cases e)
    case False
    with Cons.prems(3) f vs have "EncodeFields fe fs vs0 = Ok (p @ s)" by simp
    from ih [OF this] show ?thesis using False f by simp
  next
    case True
    then have rt: "round_trips t" and pf: "prefix_fails t"
      using Cons.prems(1) [of e t] f by simp_all
    from Cons.prems(3) f vs True have "EncodeFields fe ((True, t) # fs) (v # vs0) = Ok (p @ s)"
      by simp
    then obtain b1 b2 where b1: "EncodeValue fe t v = Ok b1"
      and b2: "EncodeFields fe fs vs0 = Ok b2" and eq: "b1 @ b2 = p @ s"
      using assms(3) by (elim EncodeFields_Cons_Ok) simp_all
    from eq show ?thesis
    proof (cases rule: append_split)
      case (1 u)
      then have "short_read (DecodeValue fd t (zero t) p)"
        using prefix_failsD [OF pf tv assms(3,4), of p u] b1 by simp
      then obtain er r where "DecodeValue fd t (zero t) p = (Err er, r)"
        and "er = EOF \<or> er = ErrUnexpectedEOF"
        by (rule short_readE)
      then show ?thesis using True f nro by auto
    next
      case (2 u)
      obtain v' where "DecodeValue fd t (zero t) (b1 @ u) = (Ok v', u)"
        using round_trips_decode [OF rt tv assms(3,4) b1, of u] by blast
      moreover have "short_read (DecodeFields fd fs (zero_fields fs) u)"
        using ih [of u] b2 2 by simp
      ultimately show ?thesis using True f nro 2 by simp
    qed
  qed
qed

lemma prefix_fails_elems:
  assumes "round_trips t" and "prefix_fails t"
    and "all_have_type t xs" and "\<not> ro fe" and "CanSet fd"
    and "EncodeElems fe t xs = Ok (p @ s)" and "s \<noteq> []"
  shows "short_read (DecodeElems fd t (replicate (length xs) (zero t)) p)"
  using assms(3,6)
proof (induction xs arbitrary: p)
  case Nil
  then show ?case using assms(7) by simp
next
  case (Cons x xs)
  then have tx: "has_type t x" and tl: "all_have_type t xs" by simp_all
  from Cons.prems(2) obtain b1 b2 where b1: "EncodeValue fe t x = Ok b1"
    and b2: "EncodeElems fe t xs = Ok b2" and eq: "b1 @ b2 = p @ s"
    by (elim EncodeElems_Cons_Ok) simp_all
  from eq show ?case
  proof (cases rule: append_split)
    case (1 u)
    then have "short_read (DecodeValue fd t (zero t) p)"
      using prefix_failsD [OF assms(2) tx assms(4,5), of p u] b1 by simp
    then obtain er r where "DecodeValue fd t (zero t) p = (Err er, r)"
      and "er = EOF \<or> er = ErrUnexpectedEOF"
      by (rule short_readE)
    then show ?thesis by auto
  next
    case (2 u)
    obtain x' where "DecodeValue fd t (zero t) (b1 @ u) = (Ok x', u)"
      using round_trips_decode [OF assms(1) tx assms(4,5) b1, of u] by blast
    moreover have "short_read (DecodeElems fd t (replicate (length xs) (zero t)) u)"
      using Cons.IH [OF tl, of u] b2 2 by simp
    ultimately show ?thesis using 2 by simp
  qed
qed

lemma prefix_fails_pairs:
  assumes "round_trips kt" and "prefix_fails kt" and "round_trips vt" and "prefix_fails vt"
    and "pairs_have_type kt vt qs"
    and "\<forall>q \<in> set qs. map_of ps (fst q) = Some (snd q)"
    and "\<not> ro fe" and "\<not> ro fd"
    and "EncodePairs fe kt vt (Some ps) (map fst qs) = Ok (p @ s)" and "s \<noteq> []"
  shows "short_read (DecodePairs fd kt vt (length qs) acc p)"
  using assms(5,6,9)
proof (induction qs arbitrary: acc p)
  case Nil
  then show ?case using assms(10) by simp
next
  case (Cons q qs)
  obtain key elem where q: "q = (key, elem)" by (cases q)
  from Cons.prems q have tk: "has_type kt key" and te: "has_type vt elem"
    and tl: "pairs_have_type kt vt qs" and mp: "map_of ps key = Some elem"
    and ixs: "\<forall>q \<in> set qs. map_of ps (fst q) = Some (snd q)"
    by simp_all
  have fe': "\<not> ro (MapElem fe)" using assms(7) by simp
  have fd': "CanSet (Elem New)" by simp
  from Cons.prems(3) q have enc: "EncodePairs fe kt vt (Some ps) (key # map fst qs) = Ok (p @ s)"
    by simp
  have ix: "MapIndex (Some ps) key = Some elem"
    using enc mp by (rule EncodePairs_Cons_found)
  from enc ix obtain bk be bs where bk: "EncodeValue (MapElem fe) kt key = Ok bk"
    and be: "EncodeValue (MapElem fe) vt elem = Ok be"
    and bs: "EncodePairs fe kt vt (Some ps) (map fst qs) = Ok bs" and eq: "p @ s = bk @ be @ bs"
    by (rule EncodePairs_Cons_Ok)
  from eq [symmetric] show ?case
  proof (cases rule: append_split)
    case (1 u)
    then have "short_read (DecodeValue (Elem New) kt (zero kt) p)"
      using prefix_failsD [OF assms(2) tk fe' fd', of p u] bk by simp
    then obtain er r where "DecodeValue (Elem New) kt (zero kt) p = (Err er, r)"
      and "er = EOF \<or> er = ErrUnexpectedEOF"
      by (rule short_readE)
    then show ?thesis by auto
  next
    case (2 u)
    obtain key' where dk: "DecodeValue (Elem New) kt (zero kt) (bk @ u) = (Ok key', u)"
      using round_trips_decode [OF assms(1) tk fe' fd' bk, of u] by blast
    from 2(2) show ?thesis
    proof (cases rule: append_split)
      case (1 w)
      then have "short_read (DecodeValue (Elem New) vt (zero vt) u)"
        using prefix_failsD [OF assms(4) te fe' fd', of u w] be by simp
      then obtain er r where "DecodeValue (Elem New) vt (zero vt) u = (Err er, r)"
        and "er = EOF \<or> er = ErrUnexpectedEOF"
        by (rule short_readE)
      then show ?thesis using dk 2 by auto
    next
      case (2 w)
      obtain elem' where de: "DecodeValue (Elem New) vt (zero vt) (be @ w) = (Ok elem', w)"
        using round_trips_decode [OF assms(3) te fe' fd' be, of w] by blast
      have "short_read (DecodePairs fd kt vt (length qs) (SetMapIndex acc key' elem') w)"
        using Cons.IH [OF tl ixs, of w "SetMapIndex acc key' elem'"] bs 2 by simp
      then show ?thesis using dk de \<open>p = bk @ u\<close> 2 assms(8) by simp
    qed
  qed
qed


lemma plain_fields_set: "plain_fields fs \<Longrightarrow> (True, t) \<in> set fs \<Longrightarrow> plain t"
  by (induction fs) auto

lemma prefix_fails_plain: "plain t \<Longrightarrow> prefix_fails t"
proof (induction t)
  case TString
  show ?case
    unfolding prefix_fails_def
  proof (intro allI impI)
    fix v :: gval and fe fd :: flag and b p s :: "byte list"
    assume tv: "has_type TString v" and fd: "CanSet fd"
      and enc: "EncodeValue fe TString v = Ok b" and eq: "b = p @ s" and s: "s \<noteq> []"
    from tv obtain val where v: "v = VString val" and len: "length val < 2 ^ 63"
      by (cases v) auto
    have n: "uint64 (int (length val)) = length val"
      using len by (intro uint64_int) simp
    have m: "length val mod 2 ^ 64 = length val" using len by simp
    from enc v n eq have "PutUint64 (length val) @ bytes_of val = p @ s" by simp
    from this s show "short_read (DecodeValue fd TString (zero TString) p)"
    proof (cases rule: header_split)
      case 1
      then obtain e bs r where "ReadFull p 8 = (Some e, bs, r)" and "e = EOF \<or> e = ErrUnexpectedEOF"
        by (rule ReadFull_short)
      then show ?thesis using fd by auto
    next
      case (2 u)
      from 2(2) have "length (bytes_of val) = length (u @ s)" by (rule arg_cong)
      with s have "length u < length val" by simp
      then obtain e bs r where "ReadFull u (length val) = (Some e, bs, r)"
        and "e = EOF \<or> e = ErrUnexpectedEOF"
        by (rule ReadFull_short)
      then show ?thesis using fd len m 2(1) by auto
    qed
  qed
next
  case (TStruct fs)
  have ih: "round_trips t \<and> prefix_fails t" if "(e, t) \<in> set fs" "e" for e t
  proof -
    have "plain t" using TStruct.prems that plain_fields_set [of fs t] by simp
    then show ?thesis using TStruct.IH [of "(e, t)" t] that round_trips_plain by simp
  qed
  show ?case
    unfolding prefix_fails_def
  proof (intro allI impI)
    fix v :: gval and fe fd :: flag and b p s :: "byte list"
    assume tv: "has_type (TStruct fs) v" and fe: "\<not> ro fe" and fd: "CanSet fd"
      and enc: "EncodeValue fe (TStruct fs) v = Ok b" and eq: "b = p @ s" and s: "s \<noteq> []"
    from tv obtain vs where v: "v = VStruct vs" and vs: "has_types fs vs"
      by (cases v) auto
    have "short_read (DecodeFields fd fs (zero_fields fs) p)"
    proof (rule prefix_fails_fields)
      show "round_trips t \<and> prefix_fails t" if "(e, t) \<in> set fs" "e" for e t
        using ih that by blast
      show "has_types fs vs" by (rule vs)
      show "\<not> ro fe" by (rule fe)
      show "CanSet fd" by (rule fd)
      show "EncodeFields fe fs vs = Ok (p @ s)" using enc v eq by simp
      show "s \<noteq> []" by (rule s)
    qed
    then show "short_read (DecodeValue fd (TStruct fs) (zero (TStruct fs)) p)" by simp
  qed
next
  case (TSlice t)
  then have rt: "round_trips t" and pf: "prefix_fails t" using round_trips_plain by simp_all
  show ?case
    unfolding prefix_fails_def
  proof (intro allI impI)
    fix v :: gval and fe fd :: flag and b p s :: "byte list"
    assume tv: "has_type (TSlice t) v" and fe: "\<not> ro fe" and fd: "CanSet fd"
      and enc: "EncodeValue fe (TSlice t) v = Ok b" and eq: "b = p @ s" and s: "s \<noteq> []"
    from tv obtain xs where v: "v = VSlice xs" and len: "length xs < 2 ^ 63"
      and xs: "all_have_type t xs"
      by (cases v) auto
    have n: "uint64 (int (length xs)) = length xs"
      using len by (intro uint64_int) simp
    have m: "length xs mod 2 ^ 64 = length xs" using len by simp
    have fe': "\<not> ro (Index_slice fe)" using fe by simp
    have fd': "CanSet (Index_slice fd)" using fd by simp
    from enc v n have "prepend (PutUint64 (length xs)) (EncodeElems (Index_slice fe) t xs) = Ok b"
      by simp
    then obtain b' where b': "EncodeElems (Index_slice fe) t xs = Ok b'"
      and "b = PutUint64 (length xs) @ b'"
      by (rule prepend_Ok)
    with eq have "PutUint64 (length xs) @ b' = p @ s" by simp
    from this s show "short_read (DecodeValue fd (TSlice t) (zero (TSlice t)) p)"
    proof (cases rule: header_split)
      case 1
      then obtain e bs r where "ReadFull p 8 = (Some e, bs, r)" and "e = EOF \<or> e = ErrUnexpectedEOF"
        by (rule ReadFull_short)
      then show ?thesis by auto
    next
      case (2 u)
      have "short_read (DecodeElems (Index_slice fd) t (replicate (length xs) (zero t)) u)"
        using prefix_fails_elems [OF rt pf xs fe' fd' _ s, of u] b' 2(2) by simp
      then show ?thesis using fd len m 2(1) by simp
    qed
  qed
next
  case (TArray n t)
  then have rt: "round_trips t" and pf: "prefix_fails t" using round_trips_plain by simp_all
  show ?case
    unfolding prefix_fails_def
  proof (intro allI impI)
    fix v :: gval and fe fd :: flag and b p s :: "byte list"
    assume tv: "has_type (TArray n t) v" and fe: "\<not> ro fe" and fd: "CanSet fd"
      and enc: "EncodeValue fe (TArray n t) v = Ok b" and eq: "b = p @ s" and s: "s \<noteq> []"
    from tv obtain xs where v: "v = VArray xs" and len: "length xs = n"
      and xs: "all_have_type t xs"
      by (cases v) auto
    have fe': "\<not> ro (Index_array fe)" using fe by simp
    have fd': "CanSet (Index_array fd)" using fd by simp
    have "short_read (DecodeElems (Index_array fd) t (replicate (length xs) (zero t)) p)"
      using prefix_fails_elems [OF rt pf xs fe' fd' _ s, of p] enc v eq by simp
    then show "short_read (DecodeValue fd (TArray n t) (zero (TArray n t)) p)"
      using len by simp
  qed
next
  case (TMap kt vt)
  then have rk: "round_trips kt" and pk: "prefix_fails kt"
    and rv: "round_trips vt" and pv: "prefix_fails vt"
    using round_trips_plain by simp_all
  show ?case
    unfolding prefix_fails_def
  proof (intro allI impI)
    fix v :: gval and fe fd :: flag and b p s :: "byte list"
    assume tv: "has_type (TMap kt vt) v" and fe: "\<not> ro fe" and fd: "CanSet fd"
      and enc: "EncodeValue fe (TMap kt vt) v = Ok b" and eq: "b = p @ s" and s: "s \<noteq> []"
    from tv obtain m where v: "v = VMap m" by (cases v) auto
    have nro: "\<not> ro fd" using fd by simp
    from enc v have "prepend (PutUint64 (uint64 (int (Len m)))) (EncodePairs fe kt vt m (MapKeys m)) = Ok b"
      by simp
    then obtain b' where b': "EncodePairs fe kt vt m (MapKeys m) = Ok b'"
      and "b = PutUint64 (uint64 (int (Len m))) @ b'"
      by (rule prepend_Ok)
    with eq have "PutUint64 (uint64 (int (Len m))) @ b' = p @ s" by simp
    from this s show "short_read (DecodeValue fd (TMap kt vt) (zero (TMap kt vt)) p)"
    proof (cases rule: header_split)
      case 1
      then obtain e bs r where "ReadFull p 8 = (Some e, bs, r)" and "e = EOF \<or> e = ErrUnexpectedEOF"
        by (rule ReadFull_short)
      then show ?thesis by auto
    next
      case (2 u)
      show ?thesis
      proof (cases m)
        case None
        with b' 2(2) s show ?thesis by simp
      next
        case (Some ps)
        with tv v have len: "length ps < 2 ^ 63" and d: "distinct (map fst ps)"
          and pt: "pairs_have_type kt vt ps"
          by auto
        have n: "uint64 (int (length ps)) = length ps"
          using len by (intro uint64_int) simp
        have md: "length ps mod 2 ^ 64 = length ps" using len by simp
        have ix: "\<forall>q \<in> set ps. map_of ps (fst q) = Some (snd q)"
          using d by simp
        have "short_read (DecodePairs fd kt vt (length ps) [] u)"
          using prefix_fails_pairs [OF rk pk rv pv pt ix fe nro _ s, of u "[]"] b' 2(2) Some by simp
        then show ?thesis using fd md n 2(1) Some by simp
      qed
    qed
  qed
next
  case (TInt k)
  show ?case
    unfolding prefix_fails_def
  proof (intro allI impI)
    fix v :: gval and fe fd :: flag and b p s :: "byte list"
    assume tv: "has_type (TInt k) v" and fd: "CanSet fd"
      and enc: "EncodeValue fe (TInt k) v = Ok b" and eq: "b = p @ s" and s: "s \<noteq> []"
    from tv obtain x where v: "v = VInt x" by (cases v) auto
    from enc v eq have "PutUint64 (uint64 x) @ [] = p @ s" by simp
    from this s show "short_read (DecodeValue fd (TInt k) (zero (TInt k)) p)"
    proof (cases rule: header_split)
      case 1
      then obtain e bs r where "ReadFull p 8 = (Some e, bs, r)" and "e = EOF \<or> e = ErrUnexpectedEOF"
        by (rule ReadFull_short)
      then show ?thesis using fd by auto
    next
      case (2 u)
      with s show ?thesis by simp
    qed
  qed
next
  case (TUint k)
  show ?case
    unfolding prefix_fails_def
  proof (intro allI impI)
    fix v :: gval and fe fd :: flag and b p s :: "byte list"
    assume tv: "has_type (TUint k) v" and fd: "CanSet fd"
      and enc: "EncodeValue fe (TUint k) v = Ok b" and eq: "b = p @ s" and s: "s \<noteq> []"
    from tv obtain u where v: "v = VUint u" by (cases v) auto
    from enc v eq have "PutUint64 u @ [] = p @ s" by simp
    from this s show "short_read (DecodeValue fd (TUint k) (zero (TUint k)) p)"
    proof (cases rule: header_split)
      case 1
      then obtain e bs r where "ReadFull p 8 = (Some e, bs, r)" and "e = EOF \<or> e = ErrUnexpectedEOF"
        by (rule ReadFull_short)
      then show ?thesis using fd by auto
    next
      case (2 w)
      with s show ?thesis by simp
    qed
  qed
next
  case (TPointer t)
  then show ?case by simp
next
  case (TOther k)
  then show ?case by simp
qed


subsection \<open>Strings and integers on the wire\<close>

text \<open>
  Claim C8. Encoding a string writes the 8-byte little-endian length of its bytes and then
  the bytes themselves, with nothing after them: the encoding has 8 bytes more than the
  string. The string "ab" encodes to the 10 bytes 02 00 00 00 00 00 00 00 61 62.
\<close>

theorem string_encoding:
  "EncodeValue fl TString (VString val) = Ok (PutUint64 (uint64 (int (length val))) @ bytes_of val)
   \<and> length (PutUint64 (uint64 (int (length val))) @ bytes_of val) = 8 + length val
   \<and> Uint64 (PutUint64 (uint64 (int (length val)))) = length val mod 2 ^ 64
   \<and> Encode TString (VString ''ab'') = Ok [0x02, 0, 0, 0, 0, 0, 0, 0, 0x61, 0x62]"
proof -
  have "int (length val) mod 2 ^ 64 = int (length val mod 2 ^ 64)"
    by (simp add: zmod_int)
  then have "uint64 (int (length val)) = length val mod 2 ^ 64"
    by (simp add: uint64_def)
  then have "Uint64 (PutUint64 (uint64 (int (length val)))) = length val mod 2 ^ 64"
    using Uint64_PutUint64 [of "uint64 (int (length val))" "[]"] by simp
  moreover have "Encode TString (VString ''ab'') = Ok [0x02, 0, 0, 0, 0, 0, 0, 0, 0x61, 0x62]"
    by (simp add: Encode_def PutUint64_def put_le_8 uint64_def bytes_of_def)
  ultimately show ?thesis by simp
qed

theorem string_encoding_witness:
  "EncodeValue ValueOf TString (VString ''abc'') =
     Ok ([0x03, 0, 0, 0, 0, 0, 0, 0] @ [0x61, 0x62, 0x63])"
  using string_encoding [of ValueOf "''abc''"]
  by (simp add: PutUint64_def put_le_8 uint64_def bytes_of_def)

text \<open>
  Claim C5. Encoding a signed or an unsigned integer of any kind writes exactly 8 bytes,
  the little-endian form of the value converted to 64 bits (two's complement for a
  negative value). The slice of the three int32 values 1, -1, 1000 encodes as the count
  3 in 8 bytes followed by the three 8-byte fields.
\<close>

theorem integer_encoding:
  "EncodeValue fl (TInt k) (VInt x) = Ok (PutUint64 (uint64 x))
   \<and> EncodeValue fl (TUint uk) (VUint u) = Ok (PutUint64 u)
   \<and> length (PutUint64 n) = 8
   \<and> Uint64 (PutUint64 n) = n mod 2 ^ 64
   \<and> int (uint64 x) = x mod 2 ^ 64
   \<and> Encode (TSlice (TInt KInt32)) (VSlice [VInt 1, VInt (- 1), VInt 1000]) =
       Ok ([3, 0, 0, 0, 0, 0, 0, 0] @ [1, 0, 0, 0, 0, 0, 0, 0]
           @ [0xFF, 0xFF, 0xFF, 0xFF, 0xFF, 0xFF, 0xFF, 0xFF] @ [0xE8, 0x03, 0, 0, 0, 0, 0, 0])"
proof -
  have "Uint64 (PutUint64 n) = n mod 2 ^ 64"
    using Uint64_PutUint64 [of n "[]"] by simp
  moreover have "Encode (TSlice (TInt KInt32)) (VSlice [VInt 1, VInt (- 1), VInt 1000]) =
       Ok ([3, 0, 0, 0, 0, 0, 0, 0] @ [1, 0, 0, 0, 0, 0, 0, 0]
           @ [0xFF, 0xFF, 0xFF, 0xFF, 0xFF, 0xFF, 0xFF, 0xFF] @ [0xE8, 0x03, 0, 0, 0, 0, 0, 0])"
    by (simp add: Encode_def PutUint64_def put_le_8 uint64_def)
  ultimately show ?thesis by (simp add: uint64_def)
qed

theorem integer_encoding_witness:
  "EncodeValue ValueOf (TInt KInt8) (VInt (- 2)) = Ok [0xFE, 0xFF, 0xFF, 0xFF, 0xFF, 0xFF, 0xFF, 0xFF]
   \<and> EncodeValue ValueOf (TUint KUint8) (VUint 5) = Ok [5, 0, 0, 0, 0, 0, 0, 0]"
  using integer_encoding [of ValueOf KInt8 "- 2" KUint8 5 0]
  by (simp add: PutUint64_def put_le_8 uint64_def)

subsection \<open>Targets that cannot be set\<close>

text \<open>
  Claim C3. Decoding into a target of string, signed-integer or unsigned-integer kind that
  is not settable returns \<open>ErrCantSet\<close> and leaves the reader where it was: the check
  comes before the read of any byte, the 8 bytes of a string's length included.
\<close>

theorem unsettable_target:
  assumes "\<not> CanSet fl" and "t = TString \<or> (\<exists>k. t = TInt k) \<or> (\<exists>k. t = TUint k)"
  shows "DecodeValue fl t v r = (Err ErrCantSet, r)"
  using assms by auto

theorem unsettable_target_witness:
  "\<not> CanSet ValueOf
   \<and> DecodeValue ValueOf TString (VString ''x'') [2, 0, 0, 0, 0, 0, 0, 0, 0x61, 0x62] =
       (Err ErrCantSet, [2, 0, 0, 0, 0, 0, 0, 0, 0x61, 0x62])"
proof -
  have h: "\<not> CanSet ValueOf" by (simp add: CanSet_def ValueOf_def)
  show ?thesis
    using h unsettable_target [OF h, of TString "VString ''x''" "[2, 0, 0, 0, 0, 0, 0, 0, 0x61, 0x62]"]
    by simp
qed

subsection \<open>The default branch of the decoder\<close>

text \<open>
  Claim C2 says that decoding into a settable target of a kind of the default branch, a
  float for one, succeeds and stores the scalar read from the stream. The code passes
  \<^verbatim>\<open>v.Interface()\<close>, a copy of the scalar, to \<^verbatim>\<open>binary.Read\<close>, which needs a pointer:
  whatever the flags, the kind, the target and the stream, \<open>DecodeValue\<close> returns an
  error for such a target. For a settable float64 target and the 8 bytes of 1.0 it
  consumes the bytes and returns the "invalid type" error of \<^verbatim>\<open>binary.Read\<close>.
\<close>

theorem other_decode_fails:
  "(\<exists>e r'. DecodeValue fl (TOther k) v r = (Err e, r'))
   \<and> DecodeValue (Elem ValueOf) (TOther KFloat64) (VOther (OFloat64 0))
        [0, 0, 0, 0, 0, 0, 0xF0, 0x3F] = (Err ErrInvalidType, [])"
proof -
  have "\<exists>e r'. binary_Read r k = (Some e, r')"
    by (cases "ReadFull r (intDataSize k)" rule: prod_cases3)
       (auto simp add: binary_Read_def split: option.splits)
  then have "\<exists>e r'. DecodeValue fl (TOther k) v r = (Err e, r')"
    by (auto simp add: CanSet_def CanInterface_def)
  moreover have "DecodeValue (Elem ValueOf) (TOther KFloat64) (VOther (OFloat64 0))
        [0, 0, 0, 0, 0, 0, 0xF0, 0x3F] = (Err ErrInvalidType, [])"
    by (simp add: Elem_def ValueOf_def CanSet_def CanInterface_def binary_Read_def ReadFull_def)
  ultimately show ?thesis by simp
qed

theorem other_decode_fails_witness:
  "\<exists>e r'. DecodeValue (Elem ValueOf) (TOther KBool) (VOther (OBool False)) [1] = (Err e, r')"
  using other_decode_fails [of "Elem ValueOf" KBool "VOther (OBool False)" "[1]"] by simp

subsection \<open>Maps\<close>

text \<open>
  Claim C7. The map with the single pair "k": 1 encodes as the count 1 in 8 bytes, then
  the encoding of the key "k", then the encoding of the value 1. Decoding these bytes
  into a settable map target gives the map with exactly that pair, whether the target
  was nil (\<open>m = None\<close>) or held other entries before; so does \<open>Decode\<close> through a pointer
  to the target.
\<close>

theorem mapping_example:
  "Encode (TMap TString (TInt KInt)) (VMap (Some [(VString ''k'', VInt 1)])) =
     Ok (PutUint64 1 @ (PutUint64 1 @ bytes_of ''k'') @ PutUint64 1)
   \<and> PutUint64 1 @ (PutUint64 1 @ bytes_of ''k'') @ PutUint64 1 =
       [1, 0, 0, 0, 0, 0, 0, 0] @ [1, 0, 0, 0, 0, 0, 0, 0, 0x6B] @ [1, 0, 0, 0, 0, 0, 0, 0]
   \<and> DecodeValue (Elem ValueOf) (TMap TString (TInt KInt)) (VMap m)
        ([1, 0, 0, 0, 0, 0, 0, 0] @ [1, 0, 0, 0, 0, 0, 0, 0, 0x6B] @ [1, 0, 0, 0, 0, 0, 0, 0] @ rest) =
       (Ok (VMap (Some [(VString ''k'', VInt 1)])), rest)
   \<and> Decode ([1, 0, 0, 0, 0, 0, 0, 0] @ [1, 0, 0, 0, 0, 0, 0, 0, 0x6B] @ [1, 0, 0, 0, 0, 0, 0, 0])
        (TPointer (TMap TString (TInt KInt))) (VPointer (Some (VMap m))) =
       Ok (VPointer (Some (VMap (Some [(VString ''k'', VInt 1)]))))"
proof -
  have enc: "Encode (TMap TString (TInt KInt)) (VMap (Some [(VString ''k'', VInt 1)])) =
     Ok (PutUint64 1 @ (PutUint64 1 @ bytes_of ''k'') @ PutUint64 1)"
    by (simp add: Encode_def uint64_def)
  have bytes: "PutUint64 1 @ (PutUint64 1 @ bytes_of ''k'') @ PutUint64 1 =
       [1, 0, 0, 0, 0, 0, 0, 0] @ [1, 0, 0, 0, 0, 0, 0, 0, 0x6B] @ [1, 0, 0, 0, 0, 0, 0, 0]"
    by (simp add: PutUint64_def put_le_8 bytes_of_def)
  have dec: "DecodeValue (Elem ValueOf) (TMap TString (TInt KInt)) (VMap m)
        ([1, 0, 0, 0, 0, 0, 0, 0] @ [1, 0, 0, 0, 0, 0, 0, 0, 0x6B] @ [1, 0, 0, 0, 0, 0, 0, 0] @ rest) =
       (Ok (VMap (Some [(VString ''k'', VInt 1)])), rest)" for rest
    by (simp add: Elem_def ValueOf_def New_def CanSet_def ReadFull_def Uint64_def SetInt_def
        int64_def string_of_def char_of_eq_iff)
  have "Decode ([1, 0, 0, 0, 0, 0, 0, 0] @ [1, 0, 0, 0, 0, 0, 0, 0, 0x6B] @ [1, 0, 0, 0, 0, 0, 0, 0])
        (TPointer (TMap TString (TInt KInt))) (VPointer (Some (VMap m))) =
       Ok (VPointer (Some (VMap (Some [(VString ''k'', VInt 1)]))))"
    using dec [of "[]"] by (simp add: Decode_def)
  with enc bytes dec show ?thesis by simp
qed

theorem mapping_example_witness:
  "Decode ([1, 0, 0, 0, 0, 0, 0, 0] @ [1, 0, 0, 0, 0, 0, 0, 0, 0x6B] @ [1, 0, 0, 0, 0, 0, 0, 0])
     (TPointer (TMap TString (TInt KInt)))
     (VPointer (Some (VMap (Some [(VString ''old'', VInt 9), (VString ''k'', VInt 2)])))) =
   Ok (VPointer (Some (VMap (Some [(VString ''k'', VInt 1)]))))
   \<and> Decode ([1, 0, 0, 0, 0, 0, 0, 0] @ [1, 0, 0, 0, 0, 0, 0, 0, 0x6B] @ [1, 0, 0, 0, 0, 0, 0, 0])
     (TPointer (TMap TString (TInt KInt))) (VPointer (Some (VMap None))) =
   Ok (VPointer (Some (VMap (Some [(VString ''k'', VInt 1)]))))"
  using mapping_example [of "Some [(VString ''old'', VInt 9), (VString ''k'', VInt 2)]" "[]"]
    mapping_example [of None "[]"]
  by simp

subsection \<open>Errors of the encoder\<close>



subsection \<open>Determinism\<close>

text \<open>
  Claim C9. Encoding is deterministic for a value that contains no map: two calls on the
  same value give the same bytes (or the same error). The one thing a call of
  \<^verbatim>\<open>EncodeValue\<close> takes from outside its argument is the order in which \<^verbatim>\<open>MapKeys\<close>
  returns the keys of a map, the parameter \<open>ord\<close> of \<open>EncodeValueOrd\<close>. For a type
  in which no map occurs, the result is the same for every two orders \<open>ord\<close> and
  \<open>ord'\<close> that two calls may meet, whatever the value and the flags; and
  \<open>EncodeValue\<close> is the encoder for the order of the list. The order of the pairs of a
  map is the exception: the map with the pairs "a": 1 and "b": 2 has different encodings
  when the keys come in the order of the list and in the reverse order.
\<close>

theorem encoding_order_independent:
  "(no_map t \<longrightarrow>
      EncodeValueOrd ord fl t v = EncodeValueOrd ord' fl t v
      \<and> EncodeOrd ord t v = EncodeOrd ord' t v)
   \<and> EncodeValueOrd (\<lambda>ks. ks) fl t v = EncodeValue fl t v
   \<and> EncodeOrd (\<lambda>ks. ks) t v = Encode t v
   \<and> EncodeOrd (\<lambda>ks. ks) (TMap TString (TInt KInt))
        (VMap (Some [(VString ''a'', VInt 1), (VString ''b'', VInt 2)]))
     \<noteq> EncodeOrd rev (TMap TString (TInt KInt))
        (VMap (Some [(VString ''a'', VInt 1), (VString ''b'', VInt 2)]))"
proof -
  have a: "EncodeValueOrd ord fl' t v = EncodeValueOrd ord' fl' t v" if "no_map t" for fl'
    using that by (rule EncodeValueOrd_no_map(1))
  have b: "EncodeValueOrd (\<lambda>ks. ks) fl' t v = EncodeValue fl' t v" for fl'
    by (rule EncodeValueOrd_id(1))
  have c: "EncodeOrd (\<lambda>ks. ks) (TMap TString (TInt KInt))
        (VMap (Some [(VString ''a'', VInt 1), (VString ''b'', VInt 2)]))
     \<noteq> EncodeOrd rev (TMap TString (TInt KInt))
        (VMap (Some [(VString ''a'', VInt 1), (VString ''b'', VInt 2)]))"
    by (simp add: EncodeOrd_def PutUint64_def put_le_8 uint64_def bytes_of_def)
  from a b c show ?thesis by (simp add: EncodeOrd_def Encode_def)
qed

theorem encoding_order_independent_witness:
  "no_map (TStruct [(True, TSlice (TInt KInt32)), (False, TString)])
   \<and> EncodeOrd rev (TStruct [(True, TSlice (TInt KInt32)), (False, TString)])
        (VStruct [VSlice [VInt 1, VInt 2], VString ''x'']) =
      Encode (TStruct [(True, TSlice (TInt KInt32)), (False, TString)])
        (VStruct [VSlice [VInt 1, VInt 2], VString ''x''])
   \<and> Encode (TStruct [(True, TSlice (TInt KInt32)), (False, TString)])
        (VStruct [VSlice [VInt 1, VInt 2], VString ''x'']) =
      Ok ([2, 0, 0, 0, 0, 0, 0, 0] @ [1, 0, 0, 0, 0, 0, 0, 0] @ [2, 0, 0, 0, 0, 0, 0, 0])"
proof -
  have n: "no_map (TStruct [(True, TSlice (TInt KInt32)), (False, TString)])" by simp
  have e: "Encode (TStruct [(True, TSlice (TInt KInt32)), (False, TString)])
        (VStruct [VSlice [VInt 1, VInt 2], VString ''x'']) =
      Ok ([2, 0, 0, 0, 0, 0, 0, 0] @ [1, 0, 0, 0, 0, 0, 0, 0] @ [2, 0, 0, 0, 0, 0, 0, 0])"
    by (simp add: Encode_def ValueOf_def CanInterface_def Field_def Index_slice_def
        PutUint64_def put_le_8 uint64_def)
  from encoding_order_independent [of "TStruct [(True, TSlice (TInt KInt32)), (False, TString)]"
      rev ValueOf "VStruct [VSlice [VInt 1, VInt 2], VString ''x'']" "\<lambda>ks. ks"] n
  have "EncodeOrd rev (TStruct [(True, TSlice (TInt KInt32)), (False, TString)])
        (VStruct [VSlice [VInt 1, VInt 2], VString ''x'']) =
      Encode (TStruct [(True, TSlice (TInt KInt32)), (False, TString)])
        (VStruct [VSlice [VInt 1, VInt 2], VString ''x''])"
    by (simp del: EncodeValueOrd.simps EncodeValue.simps)
  with n e show ?thesis by blast
qed


subsection \<open>Records\<close>

text \<open>
  Claim C6. For every record the encoder visits the fields in declaration order and passes
  over each field that is not exported: the record encodes to the same bytes as the
  record that holds only its exported fields, two exported fields are encoded one after
  the other, and the decoder passes over the same fields, so that decoding the full
  record and decoding the record of the exported fields read the same bytes and give the
  same exported fields. A record with the exported field X int32 = 7 and a field that
  is not exported encodes to the 8 bytes of 7, as the record with X alone does, and
  decoding those bytes leaves the other field as it was.
\<close>

theorem record_fields:
  "(length vs = length fs \<longrightarrow>
      EncodeValue fl (TStruct fs) (VStruct vs) =
        EncodeValue fl (TStruct (exported_fields fs)) (VStruct (exported_values fs vs))
      \<and> map_result (exported_record fs) (DecodeValue fl (TStruct fs) (VStruct vs) r) =
        DecodeValue fl (TStruct (exported_fields fs)) (VStruct (exported_values fs vs)) r)
   \<and> (\<not> ro fl \<and> EncodeValue fl t1 v1 = Ok b1 \<and> EncodeValue fl t2 v2 = Ok b2 \<longrightarrow>
        EncodeValue fl (TStruct [(True, t1), (True, t2)]) (VStruct [v1, v2]) = Ok (b1 @ b2))
   \<and> Encode (TStruct [(True, TInt KInt32), (False, t)]) (VStruct [VInt 7, y]) =
       Ok [7, 0, 0, 0, 0, 0, 0, 0]
   \<and> Encode (TStruct [(True, TInt KInt32)]) (VStruct [VInt 7]) = Ok [7, 0, 0, 0, 0, 0, 0, 0]
   \<and> DecodeValue (Elem ValueOf) (TStruct [(True, TInt KInt32), (False, t)]) (VStruct [old, y])
        ([7, 0, 0, 0, 0, 0, 0, 0] @ rest) = (Ok (VStruct [VInt 7, y]), rest)
   \<and> DecodeValue (Elem ValueOf) (TStruct [(True, TInt KInt32)]) (VStruct [old])
        ([7, 0, 0, 0, 0, 0, 0, 0] @ rest) = (Ok (VStruct [VInt 7]), rest)"
proof -
  have a: "EncodeValue fl (TStruct fs) (VStruct vs) =
        EncodeValue fl (TStruct (exported_fields fs)) (VStruct (exported_values fs vs))"
    if "length vs = length fs"
    using EncodeFields_exported [OF that] by simp
  have b: "map_result (exported_record fs) (DecodeValue fl (TStruct fs) (VStruct vs) r) =
        DecodeValue fl (TStruct (exported_fields fs)) (VStruct (exported_values fs vs)) r"
    if "length vs = length fs"
  proof -
    have "map_result (exported_record fs) (map_result VStruct x) =
        map_result VStruct (map_result (exported_values fs) x)"
      for x :: "gval list result \<times> reader"
      by (cases x; cases "fst x") (simp_all add: exported_record_def)
    then show ?thesis using DecodeFields_exported [OF that] by simp
  qed
  have c: "EncodeValue fl (TStruct [(True, t1), (True, t2)]) (VStruct [v1, v2]) = Ok (b1 @ b2)"
    if "\<not> ro fl" "EncodeValue fl t1 v1 = Ok b1" "EncodeValue fl t2 v2 = Ok b2"
    using that by (simp add: CanInterface_def)
  have d: "Encode (TStruct [(True, TInt KInt32), (False, t)]) (VStruct [VInt 7, y]) =
       Ok [7, 0, 0, 0, 0, 0, 0, 0]"
    by (simp add: Encode_def ValueOf_def CanInterface_def Field_def PutUint64_def put_le_8 uint64_def)
  have e: "Encode (TStruct [(True, TInt KInt32)]) (VStruct [VInt 7]) = Ok [7, 0, 0, 0, 0, 0, 0, 0]"
    by (simp add: Encode_def ValueOf_def CanInterface_def Field_def PutUint64_def put_le_8 uint64_def)
  have f: "DecodeValue (Elem ValueOf) (TStruct [(True, TInt KInt32), (False, t)]) (VStruct [old, y])
        ([7, 0, 0, 0, 0, 0, 0, 0] @ rest) = (Ok (VStruct [VInt 7, y]), rest)"
    by (simp add: Elem_def ValueOf_def CanSet_def CanInterface_def Field_def ReadFull_def Uint64_def SetInt_def int64_def)
  have g: "DecodeValue (Elem ValueOf) (TStruct [(True, TInt KInt32)]) (VStruct [old])
        ([7, 0, 0, 0, 0, 0, 0, 0] @ rest) = (Ok (VStruct [VInt 7]), rest)"
    by (simp add: Elem_def ValueOf_def CanSet_def CanInterface_def Field_def ReadFull_def Uint64_def SetInt_def int64_def)
  from a b c d e f g show ?thesis by blast
qed

theorem record_fields_witness:
  "Encode (TStruct [(False, TString), (True, TUint KUint8), (False, TInt KInt)])
     (VStruct [VString ''s'', VUint 5, VInt 3]) =
   Encode (TStruct [(True, TUint KUint8)]) (VStruct [VUint 5])
   \<and> Encode (TStruct [(True, TUint KUint8)]) (VStruct [VUint 5]) = Ok [5, 0, 0, 0, 0, 0, 0, 0]
   \<and> Encode (TStruct [(True, TInt KInt8), (True, TUint KUint8)]) (VStruct [VInt 1, VUint 2]) =
       Ok ([1, 0, 0, 0, 0, 0, 0, 0] @ [2, 0, 0, 0, 0, 0, 0, 0])"
  using record_fields [of "[VString ''s'', VUint 5, VInt 3]"
      "[(False, TString), (True, TUint KUint8), (False, TInt KInt)]" ValueOf "[]"
      "TInt KInt8" "VInt 1" "[1, 0, 0, 0, 0, 0, 0, 0]" "TUint KUint8" "VUint 2"
      "[2, 0, 0, 0, 0, 0, 0, 0]" TString "VString []" "VInt 0" "[]"]
  by (simp add: Encode_def ValueOf_def CanInterface_def Field_def exported_fields_def PutUint64_def put_le_8 uint64_def)


subsection \<open>The round trip\<close>





subsection \<open>Short reads\<close>

text \<open>
  Claim C4 says that decoding a stream shorter than the format requires returns an
  end-of-stream error and never panics, whatever a length field holds. The first part
  holds where the length fields are those of an encoding: when the stream is a proper
  prefix of the encoding of a well-typed value of a plain type \<open>t\<close>, decoding into a
  settable zero value of type \<open>t\<close> returns \<^verbatim>\<open>io.EOF\<close> or \<^verbatim>\<open>io.ErrUnexpectedEOF\<close>, and
  so does \<open>Decode\<close> through a pointer; it does not panic. A string whose length field
  holds 10 when 3 bytes remain gives \<^verbatim>\<open>io.ErrUnexpectedEOF\<close>.
\<close>

theorem short_read_prefix:
  assumes "plain t" and "has_type t v" and "Encode t v = Ok b" and "n < length b"
  shows "short_read (DecodeValue (Elem ValueOf) t (zero t) (take n b))
    \<and> (Decode (take n b) (TPointer t) (VPointer (Some (zero t))) = Err EOF
        \<or> Decode (take n b) (TPointer t) (VPointer (Some (zero t))) = Err ErrUnexpectedEOF)
    \<and> DecodeValue (Elem ValueOf) TString (VString []) ([10, 0, 0, 0, 0, 0, 0, 0] @ [1, 2, 3]) =
        (Err ErrUnexpectedEOF, [])"
proof -
  have fe: "\<not> ro ValueOf" and fd: "CanSet (Elem ValueOf)" by simp_all
  have split: "b = take n b @ drop n b" by simp
  have ne: "drop n b \<noteq> []" using assms(4) by simp
  have enc: "EncodeValue ValueOf t v = Ok b" using assms(3) by (simp add: Encode_def)
  have sr: "short_read (DecodeValue (Elem ValueOf) t (zero t) (take n b))"
    using prefix_fails_plain [OF assms(1)] assms(2) fe fd enc split ne
    unfolding prefix_fails_def by blast
  then obtain e r where d: "DecodeValue (Elem ValueOf) t (zero t) (take n b) = (Err e, r)"
    and e: "e = EOF \<or> e = ErrUnexpectedEOF"
    by (rule short_readE)
  have "Decode (take n b) (TPointer t) (VPointer (Some (zero t))) = Err e"
    using d by (simp add: Decode_def)
  moreover have "DecodeValue (Elem ValueOf) TString (VString []) ([10, 0, 0, 0, 0, 0, 0, 0] @ [1, 2, 3]) =
        (Err ErrUnexpectedEOF, [])"
    by (simp add: ReadFull_def Uint64_def)
  ultimately show ?thesis using sr e by auto
qed

theorem short_read_prefix_witness:
  "plain (TSlice TString)
   \<and> has_type (TSlice TString) (VSlice [VString ''ab''])
   \<and> Encode (TSlice TString) (VSlice [VString ''ab'']) =
        Ok ([1, 0, 0, 0, 0, 0, 0, 0] @ [2, 0, 0, 0, 0, 0, 0, 0] @ [0x61, 0x62])
   \<and> (17::nat) < length ([1, 0, 0, 0, 0, 0, 0, 0] @ [2, 0, 0, 0, 0, 0, 0, 0] @ [0x61, 0x62 :: byte])
   \<and> short_read (DecodeValue (Elem ValueOf) (TSlice TString) (VSlice [])
        ([1, 0, 0, 0, 0, 0, 0, 0] @ [2, 0, 0, 0, 0, 0, 0, 0] @ [0x61]))"
proof -
  let ?b = "[1, 0, 0, 0, 0, 0, 0, 0] @ [2, 0, 0, 0, 0, 0, 0, 0] @ [0x61, 0x62 :: byte]"
  have p: "plain (TSlice TString)" by simp
  have h: "has_type (TSlice TString) (VSlice [VString ''ab''])" by simp
  have e: "Encode (TSlice TString) (VSlice [VString ''ab'']) = Ok ?b"
    by (simp add: Encode_def PutUint64_def put_le_8 uint64_def bytes_of_def)
  have n: "(17::nat) < length ?b" by simp
  have "short_read (DecodeValue (Elem ValueOf) (TSlice TString) (zero (TSlice TString)) (take 17 ?b))"
    using short_read_prefix [OF p h e n] by blast
  then have "short_read (DecodeValue (Elem ValueOf) (TSlice TString) (VSlice [])
        ([1, 0, 0, 0, 0, 0, 0, 0] @ [2, 0, 0, 0, 0, 0, 0, 0] @ [0x61]))"
    by (simp del: DecodeValue.simps)
  with p h e n show ?thesis by blast
qed

text \<open>
  Claim C4 as stated fails for a length field that does not fit an \<^verbatim>\<open>int\<close>. The
  decoder passes the length it read to \<^verbatim>\<open>make\<close> (string) and to \<^verbatim>\<open>Grow\<close> (slice) without
  a check: on a settable string target, the 8 bytes FF of the length 2^64 - 1 make
  \<^verbatim>\<open>make([]byte, length)\<close> panic, and on a settable slice target the count 2^63 makes
  \<^verbatim>\<open>v.Grow(int(length))\<close> panic.
\<close>

theorem short_read_counterexample:
  "CanSet (Elem ValueOf)
   \<and> DecodeValue (Elem ValueOf) TString (VString [])
        [0xFF, 0xFF, 0xFF, 0xFF, 0xFF, 0xFF, 0xFF, 0xFF] = (Panic, [])
   \<and> Decode [0xFF, 0xFF, 0xFF, 0xFF, 0xFF, 0xFF, 0xFF, 0xFF] (TPointer TString)
        (VPointer (Some (VString []))) = Panic
   \<and> DecodeValue (Elem ValueOf) (TSlice (TInt KInt)) (VSlice [])
        [0, 0, 0, 0, 0, 0, 0, 0x80] = (Panic, [])"
proof -
  have a: "DecodeValue (Elem ValueOf) TString (VString [])
        [0xFF, 0xFF, 0xFF, 0xFF, 0xFF, 0xFF, 0xFF, 0xFF] = (Panic, [])"
    by (simp add: ReadFull_def Uint64_def)
  then have b: "Decode [0xFF, 0xFF, 0xFF, 0xFF, 0xFF, 0xFF, 0xFF, 0xFF] (TPointer TString)
        (VPointer (Some (VString []))) = Panic"
    by (simp add: Decode_def del: DecodeValue.simps(1))
  have c: "DecodeValue (Elem ValueOf) (TSlice (TInt KInt)) (VSlice [])
        [0, 0, 0, 0, 0, 0, 0, 0x80] = (Panic, [])"
    by (simp add: ReadFull_def Uint64_def)
  from a b c show ?thesis by simp
qed


end
